theory Spec2Isabelle
  imports Main "HOL-Library.Sublist"
begin

section \<open>Python strings\<close>

text \<open>
  A Python \<^verbatim>\<open>str\<close> is a sequence of Unicode code points and \<^verbatim>\<open>len\<close> counts code
  points, so a string is a list of code points here. \<open>str\<close> turns a literal into
  that representation.
\<close>

type_synonym pystr = "nat list"

definition str :: "string \<Rightarrow> pystr" where
  "str s = map of_char s"

text \<open>
  The characters that \<^verbatim>\<open>str.strip()\<close> without arguments removes: the code points
  for which \<^verbatim>\<open>str.isspace()\<close> holds.
\<close>

definition is_space :: "nat \<Rightarrow> bool" where
  "is_space c \<longleftrightarrow>
     (9 \<le> c \<and> c \<le> 13) \<or> (28 \<le> c \<and> c \<le> 32) \<or> c = 133 \<or> c = 160 \<or> c = 5760 \<or>
     (8192 \<le> c \<and> c \<le> 8202) \<or> c = 8232 \<or> c = 8233 \<or> c = 8239 \<or> c = 8287 \<or>
     c = 12288"

definition strip :: "pystr \<Rightarrow> pystr" where
  "strip s = rev (dropWhile is_space (rev (dropWhile is_space s)))"

text \<open>
  Slicing. \<open>clamp_index\<close> is what Python does to one bound of a slice of a sequence
  of length \<open>n\<close>: a negative bound counts from the end, and the result is clamped
  to \<open>0..n\<close>. \<open>py_slice s a b\<close> is \<^verbatim>\<open>s[a:b]\<close> and \<open>py_suffix s k\<close> is \<^verbatim>\<open>s[-k:]\<close>
  for \<open>k > 0\<close>.
\<close>

definition clamp_index :: "int \<Rightarrow> nat \<Rightarrow> nat" where
  "clamp_index i n =
     (if i < 0 then (if i + int n < 0 then 0 else nat (i + int n)) else min (nat i) n)"

definition py_slice :: "'a list \<Rightarrow> int \<Rightarrow> int \<Rightarrow> 'a list" where
  "py_slice s a b = drop (clamp_index a (length s)) (take (clamp_index b (length s)) s)"

definition py_suffix :: "'a list \<Rightarrow> int \<Rightarrow> 'a list" where
  "py_suffix s k = drop (clamp_index (- k) (length s)) s"

text \<open>
  \<^verbatim>\<open>separator in text\<close>: the separator occurs as a contiguous substring.
\<close>

fun contains :: "pystr \<Rightarrow> pystr \<Rightarrow> bool" where
  "contains sep [] = (sep = [])"
| "contains sep (c # cs) = (take (length sep) (c # cs) = sep \<or> contains sep cs)"

text \<open>
  \<^verbatim>\<open>text.split(separator)\<close> for a non-empty separator: the pieces between the
  non-overlapping occurrences of the separator, found from left to right.
  \<open>split_from sep acc rest\<close> has read \<open>acc\<close> since the last occurrence. Python raises
  ValueError on an empty separator; the chunker tests \<^verbatim>\<open>separator == ""\<close> before
  it splits, so that the equation for \<open>sep = []\<close> (no occurrence, one piece) is never
  reached from it.
\<close>

function split_from :: "pystr \<Rightarrow> pystr \<Rightarrow> pystr \<Rightarrow> pystr list" where
  "split_from sep acc [] = [acc]"
| "split_from sep acc (c # cs) =
     (if sep \<noteq> [] \<and> take (length sep) (c # cs) = sep
      then acc # split_from sep [] (drop (length sep) (c # cs))
      else split_from sep (acc @ [c]) cs)"
  by pat_completeness auto
termination
  by (relation "measure (\<lambda>(sep, acc, rest). length rest)") (auto simp: neq_Nil_conv)

definition str_split :: "pystr \<Rightarrow> pystr \<Rightarrow> pystr list" where
  "str_split text sep = split_from sep [] text"

section \<open>TextChunker\<close>

text \<open>
  The object built by \<^verbatim>\<open>TextChunker.__init__\<close>: the two constructor arguments are
  Python integers and are stored as given; the character budgets are derived from
  them with the fixed ratio of four characters per token.
\<close>

record chunker =
  chunk_size :: int
  chunk_overlap :: int

definition chars_per_token :: int where
  "chars_per_token = 4"

definition max_chars :: "chunker \<Rightarrow> int" where
  "max_chars cfg = chunk_size cfg * chars_per_token"

definition overlap_chars :: "chunker \<Rightarrow> int" where
  "overlap_chars cfg = chunk_overlap cfg * chars_per_token"

text \<open>
  \<^verbatim>\<open>_split_by_characters\<close>: the \<^verbatim>\<open>while start < len(text)\<close> loop, with its two
  variables \<open>start\<close> and \<open>chunks\<close> as arguments. The loop has no bound of its own, so
  the result is optional: \<open>None\<close> is a run that never leaves the loop.
\<close>

partial_function (option) split_by_characters_loop ::
  "chunker \<Rightarrow> pystr \<Rightarrow> int \<Rightarrow> pystr list \<Rightarrow> pystr list option" where
  "split_by_characters_loop cfg text start chunks =
     (if start < int (length text) then
        (let end = start + max_chars cfg;
             chunk = py_slice text start end
         in split_by_characters_loop cfg text
              (if overlap_chars cfg > 0 then end - overlap_chars cfg else end)
              (chunks @ [chunk]))
      else Some chunks)"

declare split_by_characters_loop.simps [code]

definition split_by_characters :: "chunker \<Rightarrow> pystr \<Rightarrow> pystr list option" where
  "split_by_characters cfg text = split_by_characters_loop cfg text 0 []"

text \<open>
  The body of \<^verbatim>\<open>for split in splits\<close> in \<^verbatim>\<open>_split_text_recursive\<close>, followed by
  the statements after the loop. \<open>chunks\<close> and \<open>current_chunk\<close> are the loop's
  variables; \<open>recurse\<close> is the recursive call with the remaining separators.
\<close>

fun split_loop ::
  "chunker \<Rightarrow> pystr \<Rightarrow> (pystr \<Rightarrow> pystr list option) \<Rightarrow> pystr list \<Rightarrow>
   pystr list \<Rightarrow> pystr \<Rightarrow> pystr list option" where
  "split_loop cfg separator recurse [] chunks current_chunk =
     Some (if current_chunk \<noteq> [] then chunks @ [strip current_chunk] else chunks)"
| "split_loop cfg separator recurse (split # splits) chunks current_chunk =
     (let split_with_sep = split @ separator in
      if int (length current_chunk) + int (length split_with_sep) \<le> max_chars cfg
      then split_loop cfg separator recurse splits chunks (current_chunk @ split_with_sep)
      else
        (let chunks1 = (if current_chunk \<noteq> [] then chunks @ [strip current_chunk] else chunks);
             current1 =
               (if chunks1 \<noteq> [] \<and> overlap_chars cfg > 0
                then py_suffix (last chunks1) (overlap_chars cfg) @ split_with_sep
                else split_with_sep)
         in if int (length current1) > max_chars cfg
            then (case recurse current1 of
                    None \<Rightarrow> None
                  | Some sub_chunks \<Rightarrow>
                      split_loop cfg separator recurse splits (chunks1 @ butlast sub_chunks)
                        (if sub_chunks \<noteq> [] then last sub_chunks else []))
            else split_loop cfg separator recurse splits chunks1 current1))"

text \<open>
  \<^verbatim>\<open>_split_text_recursive\<close>. \<open>try_separators\<close> is its \<^verbatim>\<open>for separator in separators\<close>
  loop, by recursion on the separators still to try. When the loop reaches a
  separator that occurs in the text, none of the separators before it does, so
  \<^verbatim>\<open>separators.index(separator)\<close> is the position the loop is at and
  \<^verbatim>\<open>remaining_separators\<close> is the rest of the list. The function passed to
  \<open>split_loop\<close> is \<^verbatim>\<open>_split_text_recursive\<close> on those remaining separators.
\<close>

primrec try_separators :: "pystr list \<Rightarrow> chunker \<Rightarrow> pystr \<Rightarrow> pystr list option" where
  "try_separators [] cfg text = split_by_characters cfg text"
| "try_separators (separator # remaining_separators) cfg text =
     (if separator = [] then split_by_characters cfg text
      else if contains separator text then
        split_loop cfg separator
          (\<lambda>t. if int (length t) \<le> max_chars cfg then Some (if t \<noteq> [] then [t] else [])
               else try_separators remaining_separators cfg t)
          (str_split text separator) [] []
      else try_separators remaining_separators cfg text)"

definition split_text_recursive :: "chunker \<Rightarrow> pystr \<Rightarrow> pystr list \<Rightarrow> pystr list option" where
  "split_text_recursive cfg text separators =
     (if int (length text) \<le> max_chars cfg then Some (if text \<noteq> [] then [text] else [])
      else try_separators separators cfg text)"

definition separators :: "pystr list" where
  "separators =
     [[10, 10], [10], [46, 32], [33, 32], [63, 32], [59, 32], [44, 32], [32], []]"

definition recursive_split :: "chunker \<Rightarrow> pystr \<Rightarrow> pystr list option" where
  "recursive_split cfg text = split_text_recursive cfg text separators"

text \<open>
  The dictionaries that \<^verbatim>\<open>chunk_text\<close> returns; the field \<open>text'\<close> is the key
  \<^verbatim>\<open>"text"\<close>.
\<close>

record chunk_metadata =
  docId :: pystr
  pageRange :: pystr
  chunkIndex :: nat

record chunk =
  text' :: pystr
  metadata :: chunk_metadata

definition chunk_text :: "chunker \<Rightarrow> pystr \<Rightarrow> pystr \<Rightarrow> pystr \<Rightarrow> chunk list option" where
  "chunk_text cfg txt page_range doc_id =
     (if txt = [] \<or> strip txt = [] then Some []
      else
        (case recursive_split cfg txt of
           None \<Rightarrow> None
         | Some chunks \<Rightarrow>
             Some (map (\<lambda>(idx, chunk_text).
                     \<lparr>text' = chunk_text,
                      metadata = \<lparr>docId = doc_id, pageRange = page_range, chunkIndex = idx\<rparr>\<rparr>)
                   (enumerate 0 chunks))))"

lemma separators_str:
  "separators = map str [[CHR 0x0A, CHR 0x0A], [CHR 0x0A], ''. '', ''! '', ''? '', ''; '', '', '', '' '', '''']"
  by (simp add: separators_def str_def)

text \<open>
  Putting the chunks of one text together again, as the specification describes
  it: the chunk texts are concatenated, the overlap length being removed from the
  start of every chunk after the first. Texts are compared up to whitespace by
  comparing what is left of them without their whitespace characters.
\<close>

definition strip_overlap_concat :: "chunker \<Rightarrow> pystr list \<Rightarrow> pystr" where
  "strip_overlap_concat cfg chunks =
     (case chunks of
        [] \<Rightarrow> []
      | c # cs \<Rightarrow> c @ concat (map (drop (nat (overlap_chars cfg))) cs))"

definition without_space :: "pystr \<Rightarrow> pystr" where
  "without_space s = filter (\<lambda>c. \<not> is_space c) s"

text \<open>
  The same with its own number of characters removed from the start of each
  chunk: \<open>strip_and_concat ks chunks\<close> removes \<open>ks ! i\<close> characters from chunk \<open>i\<close>.
\<close>

definition strip_and_concat :: "nat list \<Rightarrow> pystr list \<Rightarrow> pystr" where
  "strip_and_concat ks chunks = concat (map (\<lambda>(k, c). drop k c) (zip ks chunks))"

text \<open>
  The characters of which the separators of \<^verbatim>\<open>_recursive_split\<close> are made:
  whitespace and the punctuation marks \<^verbatim>\<open>. ! ? ; ,\<close>. \<open>reproduces g r\<close> says that \<open>r\<close>
  gives back the text \<open>g\<close> up to such characters: the characters of \<open>g\<close> other
  than whitespace occur in \<open>r\<close> in their order, and \<open>r\<close> has nothing else but
  separator characters.
\<close>

definition is_separator_char :: "nat \<Rightarrow> bool" where
  "is_separator_char c \<longleftrightarrow> is_space c \<or> c = 46 \<or> c = 33 \<or> c = 63 \<or> c = 59 \<or> c = 44"

definition without_separator_chars :: "pystr \<Rightarrow> pystr" where
  "without_separator_chars s = filter (\<lambda>c. \<not> is_separator_char c) s"

definition reproduces :: "pystr \<Rightarrow> pystr \<Rightarrow> bool" where
  "reproduces g r \<longleftrightarrow>
     subseq (without_space g) (without_space r) \<and>
     without_separator_chars r = without_separator_chars g"

section \<open>The cache table\<close>

text \<open>
  An item of the cache table, with the attributes that \<^verbatim>\<open>store_in_cache\<close> writes.
  \<open>item_docId\<close>, \<open>item_prompt\<close> and \<open>item_insights\<close> are the attributes
  \<^verbatim>\<open>docId\<close>, \<^verbatim>\<open>prompt\<close> and \<^verbatim>\<open>insights\<close>; the insights dictionary is kept abstract.
  The primary key of the table is the pair of the partition key \<^verbatim>\<open>docId\<close> and the
  sort key \<^verbatim>\<open>extractionTimestamp\<close>.
\<close>

record 'i item =
  item_docId :: pystr
  extractionTimestamp :: int
  item_prompt :: pystr
  item_insights :: 'i
  modelId :: pystr
  chunkCount :: int
  expiresAt :: int

definition item_key :: "'i item \<Rightarrow> pystr \<times> int" where
  "item_key e = (item_docId e, extractionTimestamp e)"

text \<open>
  The table is the external collaborator of \<^verbatim>\<open>CacheManager\<close>; the source only calls
  \<^verbatim>\<open>query\<close>, \<^verbatim>\<open>put_item\<close> and \<^verbatim>\<open>delete_item\<close> on it. Its state is the list of
  stored items together with \<open>faults\<close>, the outcomes of the calls still to come:
  each call consumes one entry and raises when that entry is \<open>True\<close>; when the
  list is used up every call succeeds. A call that raises leaves the items as
  they are. A query reads at most 1 MB of data in one call; the sizes of the
  items are not part of this model, so the table carries \<open>page_length\<close>, which
  gives for the items of a partition, in the order they are read, how many of
  them the service reads before that limit stops the call.
\<close>

datatype store_error = ClientError

record 'i table =
  items :: "'i item list"
  faults :: "bool list"
  page_length :: "'i item list \<Rightarrow> nat"

definition service_call :: "'i table \<Rightarrow> bool \<times> 'i table" where
  "service_call t = (case faults t of [] \<Rightarrow> (False, t) | f # fs \<Rightarrow> (f, t\<lparr>faults := fs\<rparr>))"

text \<open>
  \<^verbatim>\<open>table.query\<close> with \<^verbatim>\<open>KeyConditionExpression=Key('docId').eq(doc_id)\<close>. The
  service reads the items of the partition in the order of the sort key
  (descending when \<^verbatim>\<open>ScanIndexForward\<close> is false), stops after \<^verbatim>\<open>Limit\<close> items
  have been read, and only then applies \<^verbatim>\<open>FilterExpression\<close> to the items it has
  read: \<^verbatim>\<open>Limit\<close> bounds the items evaluated, not the items returned. One call
  returns one page, the items read before the size limit was reached; the
  response then carries \<^verbatim>\<open>LastEvaluatedKey\<close> for the next page. No call in the
  source passes \<^verbatim>\<open>ExclusiveStartKey\<close> or looks at \<^verbatim>\<open>LastEvaluatedKey\<close>, so
  every query of the source is a query for the first page.
\<close>

definition partition_items :: "'i table \<Rightarrow> pystr \<Rightarrow> bool \<Rightarrow> 'i item list" where
  "partition_items t doc_id scan_index_forward =
     (let sorted = sort_key extractionTimestamp (filter (\<lambda>e. item_docId e = doc_id) (items t))
      in if scan_index_forward then sorted else rev sorted)"

definition first_page :: "'i table \<Rightarrow> pystr \<Rightarrow> bool \<Rightarrow> 'i item list" where
  "first_page t doc_id scan_index_forward =
     take (page_length t (partition_items t doc_id scan_index_forward))
       (partition_items t doc_id scan_index_forward)"

definition query ::
  "'i table \<Rightarrow> pystr \<Rightarrow> ('i item \<Rightarrow> bool) \<Rightarrow> bool \<Rightarrow> nat option \<Rightarrow>
   (store_error + 'i item list) \<times> 'i table" where
  "query t doc_id filter_expression scan_index_forward limit =
     (case service_call t of
        (True, t') \<Rightarrow> (Inl ClientError, t')
      | (False, t') \<Rightarrow>
          (let page = first_page t' doc_id scan_index_forward;
               evaluated = (case limit of None \<Rightarrow> page | Some n \<Rightarrow> take n page)
           in (Inr (filter filter_expression evaluated), t')))"

text \<open>
  \<^verbatim>\<open>table.put_item\<close> without a condition: the new item replaces an item with the
  same primary key. \<^verbatim>\<open>table.delete_item\<close> removes the item with the given key.
\<close>

definition put_item :: "'i table \<Rightarrow> 'i item \<Rightarrow> (store_error + unit) \<times> 'i table" where
  "put_item t new_item =
     (case service_call t of
        (True, t') \<Rightarrow> (Inl ClientError, t')
      | (False, t') \<Rightarrow>
          (Inr (),
           t'\<lparr>items := new_item # filter (\<lambda>e. item_key e \<noteq> item_key new_item) (items t')\<rparr>))"

definition delete_item :: "'i table \<Rightarrow> pystr \<times> int \<Rightarrow> (store_error + unit) \<times> 'i table" where
  "delete_item t key =
     (case service_call t of
        (True, t') \<Rightarrow> (Inl ClientError, t')
      | (False, t') \<Rightarrow> (Inr (), t'\<lparr>items := filter (\<lambda>e. item_key e \<noteq> key) (items t')\<rparr>))"

section \<open>CacheManager\<close>

text \<open>
  Every operation takes the table and returns its result with the table after
  the call. \<open>now\<close> is the value of \<^verbatim>\<open>int(time.time())\<close>. The body of each
  \<^verbatim>\<open>try\<close> is a function into \<open>store_error + _\<close>; the operation itself is the
  \<^verbatim>\<open>except Exception\<close> handler around it.
\<close>

definition ttl_hours :: int where
  "ttl_hours = 24"

definition check_cache_try ::
  "'i table \<Rightarrow> int \<Rightarrow> pystr \<Rightarrow> pystr \<Rightarrow> (store_error + 'i item option) \<times> 'i table" where
  "check_cache_try t now doc_id prompt =
     (let current_time = now in
      case query t doc_id (\<lambda>e. item_prompt e = prompt \<and> expiresAt e > current_time)
             False (Some 1) of
        (Inl err, t') \<Rightarrow> (Inl err, t')
      | (Inr response_items, t') \<Rightarrow>
          (case response_items of
             cached_item # _ \<Rightarrow> (Inr (Some cached_item), t')
           | [] \<Rightarrow> (Inr None, t')))"

definition check_cache ::
  "'i table \<Rightarrow> int \<Rightarrow> pystr \<Rightarrow> pystr \<Rightarrow> 'i item option \<times> 'i table" where
  "check_cache t now doc_id prompt =
     (case check_cache_try t now doc_id prompt of
        (Inl err, t') \<Rightarrow> (None, t')
      | (Inr result, t') \<Rightarrow> (result, t'))"

definition store_in_cache_try ::
  "'i table \<Rightarrow> int \<Rightarrow> pystr \<Rightarrow> pystr \<Rightarrow> 'i \<Rightarrow> pystr \<Rightarrow> int \<Rightarrow>
   (store_error + bool) \<times> 'i table" where
  "store_in_cache_try t now doc_id prompt insights model_id chunk_count =
     (let timestamp = now;
          expires_at = timestamp + ttl_hours * 3600;
          new_item = \<lparr>item_docId = doc_id, extractionTimestamp = timestamp,
                      item_prompt = prompt, item_insights = insights, modelId = model_id,
                      chunkCount = chunk_count, expiresAt = expires_at\<rparr>
      in case put_item t new_item of
           (Inl err, t') \<Rightarrow> (Inl err, t')
         | (Inr _, t') \<Rightarrow> (Inr True, t'))"

definition store_in_cache ::
  "'i table \<Rightarrow> int \<Rightarrow> pystr \<Rightarrow> pystr \<Rightarrow> 'i \<Rightarrow> pystr \<Rightarrow> int \<Rightarrow> bool \<times> 'i table" where
  "store_in_cache t now doc_id prompt insights model_id chunk_count =
     (case store_in_cache_try t now doc_id prompt insights model_id chunk_count of
        (Inl err, t') \<Rightarrow> (False, t')
      | (Inr result, t') \<Rightarrow> (result, t'))"

definition get_all_insights_try ::
  "'i table \<Rightarrow> int \<Rightarrow> pystr \<Rightarrow> (store_error + 'i item list) \<times> 'i table" where
  "get_all_insights_try t now doc_id =
     (let current_time = now in
      query t doc_id (\<lambda>e. expiresAt e > current_time) False None)"

definition get_all_insights :: "'i table \<Rightarrow> int \<Rightarrow> pystr \<Rightarrow> 'i item list \<times> 'i table" where
  "get_all_insights t now doc_id =
     (case get_all_insights_try t now doc_id of
        (Inl err, t') \<Rightarrow> ([], t')
      | (Inr result, t') \<Rightarrow> (result, t'))"

text \<open>
  The loop \<^verbatim>\<open>for item in items\<close> of \<^verbatim>\<open>invalidate_cache\<close>, with \<open>deleted_count\<close> as
  its variable; a call that raises ends it.
\<close>

fun delete_each ::
  "'i table \<Rightarrow> 'i item list \<Rightarrow> nat \<Rightarrow> (store_error + nat) \<times> 'i table" where
  "delete_each t [] deleted_count = (Inr deleted_count, t)"
| "delete_each t (e # rest) deleted_count =
     (case delete_item t (item_docId e, extractionTimestamp e) of
        (Inl err, t') \<Rightarrow> (Inl err, t')
      | (Inr _, t') \<Rightarrow> delete_each t' rest (deleted_count + 1))"

definition invalidate_cache_try ::
  "'i table \<Rightarrow> pystr \<Rightarrow> (store_error + nat) \<times> 'i table" where
  "invalidate_cache_try t doc_id =
     (case query t doc_id (\<lambda>e. True) True None of
        (Inl err, t') \<Rightarrow> (Inl err, t')
      | (Inr response_items, t') \<Rightarrow> delete_each t' response_items 0)"

definition invalidate_cache :: "'i table \<Rightarrow> pystr \<Rightarrow> nat \<times> 'i table" where
  "invalidate_cache t doc_id =
     (case invalidate_cache_try t doc_id of
        (Inl err, t') \<Rightarrow> (0, t')
      | (Inr deleted_count, t') \<Rightarrow> (deleted_count, t'))"

text \<open>
  A sequence of \<^verbatim>\<open>store_in_cache\<close> calls, each given as the time of the call and
  its arguments.
\<close>

fun store_all ::
  "'i table \<Rightarrow> (int \<times> pystr \<times> pystr \<times> 'i \<times> pystr \<times> int) list \<Rightarrow> 'i table" where
  "store_all t [] = t"
| "store_all t ((now, doc_id, prompt, insights, model_id, chunk_count) # calls) =
     store_all (snd (store_in_cache t now doc_id prompt insights model_id chunk_count)) calls"

section \<open>Evaluation and basic facts\<close>

lemmas chunker_defs =
  chunk_text_def recursive_split_def split_text_recursive_def separators_def
  max_chars_def overlap_chars_def chars_per_token_def str_split_def str_def strip_def
  is_space_def split_by_characters_def py_slice_def py_suffix_def clamp_index_def
  enumerate_eq_zip Let_def

lemma strip_Nil_iff: "strip s = [] \<longleftrightarrow> (\<forall>c\<in>set s. is_space c)"
proof
  assume "strip s = []"
  then have "\<forall>c\<in>set (dropWhile is_space s). is_space c"
    by (simp add: strip_def)
  then have "dropWhile is_space s = []"
    by (metis hd_dropWhile hd_in_set)
  then show "\<forall>c\<in>set s. is_space c" by simp
next
  assume "\<forall>c\<in>set s. is_space c"
  then have "dropWhile is_space s = []" by simp
  then show "strip s = []" by (simp add: strip_def del: dropWhile_eq_Nil_conv)
qed

lemma length_strip: "length (strip s) \<le> length s"
proof -
  have "length (dropWhile is_space xs) \<le> length xs" for xs
    by (rule length_dropWhile_le)
  then have "length (strip s) \<le> length (dropWhile is_space s)"
    unfolding strip_def by (metis length_rev)
  also have "\<dots> \<le> length s" by (rule length_dropWhile_le)
  finally show ?thesis .
qed

text \<open>
  The function that \<open>try_separators\<close> hands to the loop is
  \<^verbatim>\<open>_split_text_recursive\<close> on the remaining separators.
\<close>

lemma try_separators_recursive:
  "separator \<noteq> [] \<Longrightarrow> contains separator tx \<Longrightarrow>
   try_separators (separator # remaining_separators) cfg tx =
     split_loop cfg separator (\<lambda>t. split_text_recursive cfg t remaining_separators)
       (str_split tx separator) [] []"
  by (simp add: split_text_recursive_def)

section \<open>Chunk metadata and blank input\<close>

text \<open>
  C10. For every input text that is empty or consists only of whitespace,
  \<^verbatim>\<open>chunk_text\<close> returns the empty list, as a normal result, whatever the
  configuration.
\<close>

theorem chunk_text_blank:
  "txt = [] \<or> (\<forall>c\<in>set txt. is_space c) \<Longrightarrow> chunk_text cfg txt page_range doc_id = Some []"
  by (auto simp: chunk_text_def strip_Nil_iff)

theorem chunk_text_blank_witness:
  "(str '' '' = [] \<or> list_all is_space (str '' '')) \<and>
   chunk_text \<lparr>chunk_size = 5000, chunk_overlap = 819\<rparr> (str '' '') (str ''1-10'') (str ''doc'')
     = Some []"
proof -
  have h: "str '' '' = [] \<or> (\<forall>c\<in>set (str '' ''). is_space c)"
    by (simp add: str_def is_space_def)
  show ?thesis
    using chunk_text_blank [OF h] by (simp add: str_def is_space_def)
qed

text \<open>
  C9. Whenever \<^verbatim>\<open>chunk_text\<close> returns \<open>N\<close> chunks, their \<^verbatim>\<open>chunkIndex\<close> values, in
  output order, are \<open>0, 1, ..., N - 1\<close>.
\<close>

theorem chunk_index_sequential:
  "chunk_text cfg txt page_range doc_id = Some cs \<Longrightarrow>
   map (\<lambda>c. chunkIndex (metadata c)) cs = [0..<length cs]"
  by (auto simp: chunk_text_def comp_def case_prod_unfold
        map_fst_enumerate [unfolded o_def, symmetric] split: if_splits option.splits)

lemma sentences_example:
  "chunk_text \<lparr>chunk_size = 1, chunk_overlap = 0\<rparr> (str ''A. B. C.'') page_range doc_id =
   Some [\<lparr>text' = str ''A.'',
           metadata = \<lparr>docId = doc_id, pageRange = page_range, chunkIndex = 0\<rparr>\<rparr>,
         \<lparr>text' = str ''B.'',
           metadata = \<lparr>docId = doc_id, pageRange = page_range, chunkIndex = 1\<rparr>\<rparr>,
         \<lparr>text' = str ''C..'',
           metadata = \<lparr>docId = doc_id, pageRange = page_range, chunkIndex = 2\<rparr>\<rparr>]"
  by (simp add: chunker_defs)

theorem chunk_index_sequential_witness:
  "map (\<lambda>c. chunkIndex (metadata c))
     (the (chunk_text \<lparr>chunk_size = 1, chunk_overlap = 0\<rparr> (str ''A. B. C.'')
        (str ''1-10'') (str ''doc''))) = [0, 1, 2]"
  using chunk_index_sequential [OF sentences_example [of "str ''1-10''" "str ''doc''"]]
  by (simp add: sentences_example upt_rec)

section \<open>The sentence example\<close>

text \<open>
  C5, as stated: for the text \<^verbatim>\<open>"A. B. C."\<close> with a budget of four characters and no
  overlap, the chunk texts are \<^verbatim>\<open>["A. ", "B. ", "C."]\<close>. The code returns other
  texts.
\<close>

theorem sentences_counterexample:
  "map_option (map text')
     (chunk_text \<lparr>chunk_size = 1, chunk_overlap = 0\<rparr> (str ''A. B. C.'') (str ''1-10'')
        (str ''doc''))
   \<noteq> Some [str ''A. '', str ''B. '', str ''C.'']"
  by (simp add: sentences_example) (simp add: str_def)

text \<open>
  C5, amended: for that text and configuration \<^verbatim>\<open>chunk_text\<close> splits on the sentence
  separator and returns exactly three chunks, in order: \<^verbatim>\<open>"A."\<close> and \<^verbatim>\<open>"B."\<close>, each
  with its surrounding whitespace stripped, and a third chunk that starts with
  \<^verbatim>\<open>"C."\<close>.
\<close>

theorem sentences_amended:
  "\<exists>c. map_option (map text')
          (chunk_text \<lparr>chunk_size = 1, chunk_overlap = 0\<rparr> (str ''A. B. C.'') page_range doc_id)
        = Some [str ''A.'', str ''B.'', c] \<and> prefix (str ''C.'') c"
  by (simp add: sentences_example) (simp add: str_def)

section \<open>Termination of the chunker\<close>


lemma loop_unfold:
  "start < int (length txt) \<Longrightarrow>
   split_by_characters_loop cfg txt start chunks =
   split_by_characters_loop cfg txt (start + (max_chars cfg - max 0 (overlap_chars cfg)))
     (chunks @ [py_slice txt start (start + max_chars cfg)])"
  by (subst split_by_characters_loop.simps) (simp add: Let_def max_def add_diff_eq)

lemma loop_exit:
  "\<not> start < int (length txt) \<Longrightarrow> split_by_characters_loop cfg txt start chunks = Some chunks"
  by (subst split_by_characters_loop.simps) simp

lemma loop_stuck:
  "split_by_characters_loop cfg tx start chunks = Some r \<Longrightarrow>
   start < int (length tx) \<longrightarrow> 0 < max_chars cfg - max 0 (overlap_chars cfg)"
proof (induction cfg tx start chunks r rule: split_by_characters_loop.raw_induct [rotated 1, consumes 1])
  case (1 loop cfg tx start chunks r)
  show ?case
  proof (intro impI)
    assume lt: "start < int (length tx)"
    show "0 < max_chars cfg - max 0 (overlap_chars cfg)"
    proof (rule ccontr)
      assume n: "\<not> 0 < max_chars cfg - max 0 (overlap_chars cfg)"
      from lt "1"(2) have
        c: "loop cfg tx (start + (max_chars cfg - max 0 (overlap_chars cfg)))
              (chunks @ [py_slice tx start (start + max_chars cfg)]) = Some r"
        by (simp add: Let_def max_def add_diff_eq split: if_splits)
      from n lt have "start + (max_chars cfg - max 0 (overlap_chars cfg)) < int (length tx)"
        by arith
      with "1"(1) [OF c] n show False by blast
    qed
  qed
qed

lemma loop_diverges:
  "start < int (length txt) \<Longrightarrow> max_chars cfg - max 0 (overlap_chars cfg) \<le> 0 \<Longrightarrow>
   split_by_characters_loop cfg txt start chunks = None"
  using loop_stuck [of cfg "txt" start chunks] by (cases "split_by_characters_loop cfg txt start chunks") auto

lemma loop_terminates:
  assumes "0 < max_chars cfg - max 0 (overlap_chars cfg)"
  shows "\<exists>r. split_by_characters_loop cfg txt start chunks = Some r"
proof (induction "nat (int (length txt) - start)" arbitrary: start chunks rule: less_induct)
  case less
  show ?case
  proof (cases "start < int (length txt)")
    case True
    with assms have
      "nat (int (length txt) - (start + (max_chars cfg - max 0 (overlap_chars cfg))))
         < nat (int (length txt) - start)" by arith
    from less [OF this] show ?thesis by (simp add: loop_unfold [OF True])
  next
    case False
    then show ?thesis by (simp add: loop_exit)
  qed
qed

lemma split_loop_terminates:
  assumes "\<And>t. \<exists>r. recurse t = Some r"
  shows "\<exists>r. split_loop cfg sep recurse splits chunks cur = Some r"
proof (induction splits arbitrary: chunks cur)
  case Nil
  then show ?case by simp
next
  case (Cons s splits)
  show ?case
  proof (cases "int (length cur) + int (length (s @ sep)) \<le> max_chars cfg")
    case True
    with Cons [of chunks "cur @ s @ sep"] show ?thesis by (simp add: Let_def)
  next
    case False
    define chunks1 where "chunks1 = (if cur \<noteq> [] then chunks @ [strip cur] else chunks)"
    define current1 where "current1 =
       (if chunks1 \<noteq> [] \<and> overlap_chars cfg > 0
        then py_suffix (last chunks1) (overlap_chars cfg) @ s @ sep else s @ sep)"
    show ?thesis
    proof (cases "int (length current1) > max_chars cfg")
      case True
      from assms obtain sub where sub: "recurse current1 = Some sub" by blast
      from Cons [of "chunks1 @ butlast sub" "if sub \<noteq> [] then last sub else []"]
      show ?thesis
        using False True sub
        by (simp add: Let_def chunks1_def [symmetric] current1_def [symmetric])
    next
      case F2: False
      from Cons [of chunks1 current1] show ?thesis
        using False F2
        by (simp add: Let_def chunks1_def [symmetric] current1_def [symmetric])
    qed
  qed
qed

lemma try_separators_terminates:
  assumes "0 < max_chars cfg - max 0 (overlap_chars cfg)"
  shows "\<exists>r. try_separators seps cfg tx = Some r"
proof (induction seps arbitrary: tx)
  case Nil
  then show ?case by (simp add: split_by_characters_def loop_terminates [OF assms])
next
  case (Cons sep seps)
  have "\<exists>r. split_loop cfg sep
          (\<lambda>t. if int (length t) \<le> max_chars cfg then Some (if t \<noteq> [] then [t] else [])
               else try_separators seps cfg t) (str_split tx sep) [] [] = Some r"
    by (rule split_loop_terminates) (simp add: Cons)
  with Cons [of tx] show ?case
    by (simp add: split_by_characters_def loop_terminates [OF assms])
qed

text \<open>
  C2, amended: \<^verbatim>\<open>chunk_text\<close> returns for every text whenever the chunk size is
  positive and the overlap is smaller than the chunk size. Each iteration of the
  character-level loop then moves \<open>start\<close> forward by
  \<open>max_chars - max 0 overlap_chars\<close>, which is positive and equals
  \<open>max_chars - overlap_chars\<close> when the overlap is not negative.
\<close>

theorem chunk_text_terminates:
  assumes "0 < chunk_size cfg" and "chunk_overlap cfg < chunk_size cfg"
  shows "(\<exists>cs. chunk_text cfg txt page_range doc_id = Some cs) \<and>
         0 < max_chars cfg - max 0 (overlap_chars cfg) \<and>
         (0 \<le> chunk_overlap cfg \<longrightarrow>
            max_chars cfg - max 0 (overlap_chars cfg) = max_chars cfg - overlap_chars cfg) \<and>
         (start < int (length txt) \<longrightarrow>
            split_by_characters_loop cfg txt start chunks =
            split_by_characters_loop cfg txt (start + (max_chars cfg - max 0 (overlap_chars cfg)))
              (chunks @ [py_slice txt start (start + max_chars cfg)]))"
proof -
  from assms have pos: "0 < max_chars cfg - max 0 (overlap_chars cfg)"
    by (simp add: max_chars_def overlap_chars_def chars_per_token_def max_def)
  from try_separators_terminates [OF pos] obtain r where
    "try_separators separators cfg txt = Some r" by blast
  then have "\<exists>cs. chunk_text cfg txt page_range doc_id = Some cs"
    by (simp add: chunk_text_def recursive_split_def split_text_recursive_def)
  moreover have "0 \<le> chunk_overlap cfg \<longrightarrow>
      max_chars cfg - max 0 (overlap_chars cfg) = max_chars cfg - overlap_chars cfg"
    by (simp add: overlap_chars_def chars_per_token_def max_def)
  ultimately show ?thesis using pos loop_unfold [of start "txt" cfg chunks] by blast
qed

text \<open>
  C2, as stated: \<^verbatim>\<open>chunk_text\<close> terminates for every configuration, an overlap
  that is not smaller than the chunk size being degraded to no overlap. The
  constructor stores the overlap as given; with chunk size 1 and overlap 1 the
  character-level loop restarts at \<open>start = 0\<close> forever on a text of five
  characters without separators.
\<close>

theorem chunk_text_diverges:
  "chunk_text \<lparr>chunk_size = 1, chunk_overlap = 1\<rparr> (str ''abcde'') (str ''1-10'') (str ''doc'') = None"
proof -
  have "split_by_characters_loop \<lparr>chunk_size = 1, chunk_overlap = 1\<rparr> (str ''abcde'') 0 [] = None"
    by (rule loop_diverges) (simp_all add: str_def max_chars_def overlap_chars_def chars_per_token_def)
  then have "split_by_characters \<lparr>chunk_size = 1, chunk_overlap = 1\<rparr> [97, 98, 99, 100, 101] = None"
    by (simp add: split_by_characters_def str_def)
  then show ?thesis
    by (simp add: chunk_text_def recursive_split_def split_text_recursive_def separators_def
      max_chars_def overlap_chars_def chars_per_token_def str_def strip_def is_space_def)
qed

theorem chunk_text_terminates_witness:
  "(\<exists>cs. chunk_text \<lparr>chunk_size = 5000, chunk_overlap = 819\<rparr> (str ''abcde'') (str ''1-10'')
           (str ''doc'') = Some cs) \<and>
   max_chars \<lparr>chunk_size = 5000, chunk_overlap = 819\<rparr>
     - max 0 (overlap_chars \<lparr>chunk_size = 5000, chunk_overlap = 819\<rparr>) = 16724"
  using chunk_text_terminates
    [of "\<lparr>chunk_size = 5000, chunk_overlap = 819\<rparr>" "str ''abcde''" "str ''1-10''" "str ''doc''"
        0 "[]"]
  by (simp add: max_chars_def overlap_chars_def chars_per_token_def)

section \<open>Coverage of the input by the chunks\<close>


lemma without_space_strip: "without_space (strip s) = without_space s"
proof -
  have a: "filter (\<lambda>c. \<not> is_space c) (dropWhile is_space xs) = filter (\<lambda>c. \<not> is_space c) xs" for xs
    by (induction xs) auto
  have "without_space (strip s) = rev (filter (\<lambda>c. \<not> is_space c) (dropWhile is_space (rev (dropWhile is_space s))))"
    by (simp add: without_space_def strip_def rev_filter)
  also have "\<dots> = rev (filter (\<lambda>c. \<not> is_space c) (rev (dropWhile is_space s)))"
    by (simp only: a)
  also have "\<dots> = filter (\<lambda>c. \<not> is_space c) (dropWhile is_space s)"
    by (simp add: rev_filter [symmetric])
  also have "\<dots> = without_space s"
    by (simp only: a without_space_def)
  finally show ?thesis .
qed

lemma without_space_Nil [simp]: "without_space [] = []"
  by (simp add: without_space_def)

lemma without_space_append [simp]:
  "without_space (a @ b) = without_space a @ without_space b"
  by (simp add: without_space_def)

lemma without_space_mono: "subseq a b \<Longrightarrow> subseq (without_space a) (without_space b)"
  by (simp add: without_space_def subseq_filter_left subseq_order.order_trans subseq_filter)

lemma split_from_join:
  "sep \<noteq> [] \<Longrightarrow> concat (map (\<lambda>s. s @ sep) (split_from sep acc rest)) = acc @ rest @ sep"
proof (induction sep acc rest rule: split_from.induct)
  case (1 sep acc)
  then show ?case by simp
next
  case (2 sep acc c cs)
  show ?case
  proof (cases "take (length sep) (c # cs) = sep")
    case True
    with 2 have a: "concat (map (\<lambda>s. s @ sep) (split_from sep acc (c # cs)))
        = acc @ (sep @ drop (length sep) (c # cs)) @ sep" by simp
    have "sep @ drop (length sep) (c # cs) = c # cs"
      using True append_take_drop_id [of "length sep" "c # cs"] by simp
    with a show ?thesis by simp
  next
    case False
    with 2 show ?thesis by simp
  qed
qed

lemma str_split_join:
  "sep \<noteq> [] \<Longrightarrow> concat (map (\<lambda>s. s @ sep) (str_split tx sep)) = tx @ sep"
  by (simp add: str_split_def split_from_join)

lemma py_slice_nonneg:
  "0 \<le> a \<Longrightarrow> 0 \<le> m \<Longrightarrow> py_slice s a (a + m) = take (nat m) (drop (nat a) s)"
  by (cases "nat a \<le> length s")
     (auto simp: py_slice_def clamp_index_def drop_take min_def nat_add_distrib)

lemma loop_rule:
  assumes pos: "0 < max_chars cfg - max 0 (overlap_chars cfg)"
    and run: "split_by_characters_loop cfg tx start chunks = Some r"
    and exit: "\<And>start chunks. \<not> start < int (length tx) \<Longrightarrow> P start chunks chunks"
    and step: "\<And>start chunks r. start < int (length tx) \<Longrightarrow>
        P (start + (max_chars cfg - max 0 (overlap_chars cfg)))
          (chunks @ [py_slice tx start (start + max_chars cfg)]) r \<Longrightarrow> P start chunks r"
  shows "P start chunks r"
  using run
proof (induction "nat (int (length tx) - start)" arbitrary: start chunks rule: less_induct)
  case less
  show ?case
  proof (cases "start < int (length tx)")
    case True
    with pos have m:
      "nat (int (length tx) - (start + (max_chars cfg - max 0 (overlap_chars cfg))))
         < nat (int (length tx) - start)" by arith
    from less.prems have
      "split_by_characters_loop cfg tx (start + (max_chars cfg - max 0 (overlap_chars cfg)))
         (chunks @ [py_slice tx start (start + max_chars cfg)]) = Some r"
      by (simp add: loop_unfold [OF True])
    from step [OF True less.hyps [OF m this]] show ?thesis .
  next
    case False
    with less.prems exit [OF False, of chunks] show ?thesis by (simp add: loop_exit)
  qed
qed

lemma loop_exact:
  assumes ov: "0 \<le> overlap_chars cfg" "overlap_chars cfg < max_chars cfg"
    and run: "split_by_characters_loop cfg tx start chunks = Some r"
  shows "0 \<le> start \<longrightarrow>
         (\<exists>rest. r = chunks @ rest \<and>
            concat (map (drop (nat (overlap_chars cfg))) rest)
              = drop (nat start + nat (overlap_chars cfg)) tx)"
proof -
  from ov have pos: "0 < max_chars cfg - max 0 (overlap_chars cfg)" by arith
  from ov have st: "max_chars cfg - max 0 (overlap_chars cfg) = max_chars cfg - overlap_chars cfg"
    by arith
  show ?thesis
  proof (rule loop_rule [OF pos run])
    fix start :: int and chunks :: "pystr list"
    assume "\<not> start < int (length tx)"
    then show "0 \<le> start \<longrightarrow>
         (\<exists>rest. chunks = chunks @ rest \<and>
            concat (map (drop (nat (overlap_chars cfg))) rest)
              = drop (nat start + nat (overlap_chars cfg)) tx)"
      by auto
  next
    fix start :: int and chunks r :: "pystr list"
    let ?o = "nat (overlap_chars cfg)"
    let ?m = "nat (max_chars cfg)"
    let ?chunk = "py_slice tx start (start + max_chars cfg)"
    assume lt: "start < int (length tx)"
      and ih: "0 \<le> start + (max_chars cfg - max 0 (overlap_chars cfg)) \<longrightarrow>
         (\<exists>rest. r = (chunks @ [?chunk]) @ rest \<and>
            concat (map (drop ?o) rest)
              = drop (nat (start + (max_chars cfg - max 0 (overlap_chars cfg))) + ?o) tx)"
    show "0 \<le> start \<longrightarrow>
         (\<exists>rest. r = chunks @ rest \<and>
            concat (map (drop ?o) rest) = drop (nat start + ?o) tx)"
    proof
      assume s0: "0 \<le> start"
      from ov have m0: "0 \<le> max_chars cfg" by arith
      have e: "nat (start + (max_chars cfg - max 0 (overlap_chars cfg))) + ?o = nat start + ?m"
        using s0 ov by arith
      from s0 pos ih e obtain rest where
        r: "r = (chunks @ [?chunk]) @ rest"
        and c: "concat (map (drop ?o) rest) = drop (nat start + ?m) tx" by auto
      have ch: "?chunk = take ?m (drop (nat start) tx)"
        by (rule py_slice_nonneg [OF s0 m0])
      have om: "?o \<le> ?m" using ov by arith
      have "drop ?o ?chunk = take (?m - ?o) (drop (nat start + ?o) tx)"
        by (simp add: ch drop_take add.commute)
      moreover have "nat start + ?m = (?m - ?o) + (nat start + ?o)" using om by arith
      then have "drop (nat start + ?m) tx = drop (?m - ?o) (drop (nat start + ?o) tx)"
        by (simp only: drop_drop)
      ultimately have "drop ?o ?chunk @ drop (nat start + ?m) tx
          = take (?m - ?o) (drop (nat start + ?o) tx) @ drop (?m - ?o) (drop (nat start + ?o) tx)"
        by (simp only:)
      then have "drop ?o ?chunk @ drop (nat start + ?m) tx = drop (nat start + ?o) tx"
        by (simp only: append_take_drop_id)
      with c r show "\<exists>rest. r = chunks @ rest \<and>
            concat (map (drop ?o) rest) = drop (nat start + ?o) tx"
        by (intro exI [of _ "?chunk # rest"]) simp
    qed
  qed
qed

lemma split_by_characters_exact:
  assumes ov: "0 \<le> overlap_chars cfg" "overlap_chars cfg < max_chars cfg"
    and run: "split_by_characters cfg tx = Some cs"
  shows "strip_overlap_concat cfg cs = tx"
proof (cases "tx = []")
  case True
  with run show ?thesis
    by (simp add: split_by_characters_def loop_exit strip_overlap_concat_def)
next
  case False
  let ?o = "nat (overlap_chars cfg)"
  let ?m = "nat (max_chars cfg)"
  let ?c = "py_slice tx 0 (0 + max_chars cfg)"
  from ov have m0: "0 \<le> max_chars cfg" by arith
  from False run have
    "split_by_characters_loop cfg tx (0 + (max_chars cfg - max 0 (overlap_chars cfg))) ([] @ [?c])
       = Some cs"
    using loop_unfold [of 0 tx cfg "[]"] by (simp add: split_by_characters_def)
  from loop_exact [OF ov this] ov obtain rest where
    r: "cs = [?c] @ rest"
    and c: "concat (map (drop ?o) rest)
      = drop (nat (0 + (max_chars cfg - max 0 (overlap_chars cfg))) + ?o) tx" by auto
  have "nat (0 + (max_chars cfg - max 0 (overlap_chars cfg))) + ?o = ?m" using ov by arith
  with c have "concat (map (drop ?o) rest) = drop ?m tx" by simp
  moreover have "?c = take ?m tx"
    using py_slice_nonneg [of 0 "max_chars cfg" tx] m0 by simp
  ultimately show ?thesis
    by (simp add: r strip_overlap_concat_def)
qed

lemma map_text_enumerate:
  "map (text' \<circ> (\<lambda>(idx, c). \<lparr>text' = c,
       metadata = \<lparr>docId = d, pageRange = p, chunkIndex = idx\<rparr>\<rparr>)) (enumerate n chunks) = chunks"
  by (induction chunks arbitrary: n) simp_all

text \<open>
  Reassembling the chunks: the lengths to remove are found along the run of the
  splitter. In the lemmas, \<open>d\<close> is the part at the start of the pending text that
  repeats the end of the chunk before it and \<open>g\<close> is the part still to be
  covered.
\<close>

lemma without_separator_chars_Nil [simp]: "without_separator_chars [] = []"
  by (simp add: without_separator_chars_def)

lemma without_separator_chars_append [simp]:
  "without_separator_chars (a @ b) = without_separator_chars a @ without_separator_chars b"
  by (simp add: without_separator_chars_def)

lemma without_separator_chars_space:
  "without_separator_chars (without_space s) = without_separator_chars s"
  by (induction s) (auto simp: without_separator_chars_def without_space_def is_separator_char_def)

lemma reproduces_refl: "reproduces g g"
  by (simp add: reproduces_def)

lemma reproduces_space:
  assumes "without_space r = without_space g"
  shows "reproduces g r"
proof -
  from assms have "without_separator_chars (without_space r) = without_separator_chars (without_space g)"
    by simp
  then have "without_separator_chars r = without_separator_chars g"
    by (simp only: without_separator_chars_space)
  with assms show ?thesis by (simp add: reproduces_def)
qed

lemma reproduces_append:
  "reproduces g1 r1 \<Longrightarrow> reproduces g2 r2 \<Longrightarrow> reproduces (g1 @ g2) (r1 @ r2)"
  by (simp add: reproduces_def list_emb_append_mono)

lemma reproduces_trans:
  "reproduces a b \<Longrightarrow> reproduces b c \<Longrightarrow> reproduces a c"
  unfolding reproduces_def using subseq_order.order_trans by auto

lemma reproduces_separator:
  assumes "without_separator_chars sep = []"
  shows "reproduces g (g @ sep)"
proof -
  have "subseq (without_space g) (without_space (g @ sep))"
    by (rule without_space_mono, rule prefix_imp_subseq) simp
  with assms show ?thesis by (simp add: reproduces_def)
qed

lemma reproduces_chain:
  assumes "reproduces g (x @ gc)" and "reproduces (gc @ rest) r"
  shows "reproduces (g @ rest) (x @ r)"
proof -
  from reproduces_append [OF assms(1) reproduces_refl [of rest]]
  have "reproduces (g @ rest) (x @ gc @ rest)" by simp
  moreover from reproduces_append [OF reproduces_refl [of x] assms(2)]
  have "reproduces (x @ gc @ rest) (x @ r)" .
  ultimately show ?thesis by (rule reproduces_trans)
qed

lemma strip_prefix_drop:
  "\<exists>k\<le>length d. without_space (drop k (strip (d @ g))) = without_space g"
proof (cases "\<forall>c\<in>set d. is_space c")
  case True
  then have "without_space d = []" by (simp add: without_space_def)
  then have "without_space (drop 0 (strip (d @ g))) = without_space g"
    by (simp add: without_space_strip)
  then show ?thesis by blast
next
  case False
  define d' where "d' = dropWhile is_space d"
  from False have d'n: "d' \<noteq> []" by (simp add: d'_def)
  from False have lead: "dropWhile is_space (d @ g) = d' @ g"
    by (auto simp: d'_def dropWhile_append1)
  have len: "length d' \<le> length d" by (simp add: d'_def length_dropWhile_le)
  have hd': "\<not> is_space (hd d')" using False by (simp add: d'_def hd_dropWhile)
  show ?thesis
  proof (cases "\<forall>c\<in>set g. is_space c")
    case True
    then have g0: "without_space g = []" by (simp add: without_space_def)
    have "strip (d @ g) = rev (dropWhile is_space (rev (d' @ g)))"
      by (simp add: strip_def lead)
    also have "\<dots> = rev (dropWhile is_space (rev d'))"
    proof -
      have "dropWhile is_space (rev g @ rev d') = dropWhile is_space (rev d')"
        by (rule dropWhile_append2) (use True in simp)
      then show ?thesis by simp
    qed
    finally have "length (strip (d @ g)) \<le> length d'"
      by (metis length_dropWhile_le length_rev)
    then have "drop (length d') (strip (d @ g)) = []" by simp
    with g0 len show ?thesis by (intro exI [of _ "length d'"]) simp
  next
    case F2: False
    then have "dropWhile is_space (rev g @ rev d') = dropWhile is_space (rev g) @ rev d'"
      by (auto simp: dropWhile_append1)
    then have "strip (d @ g) = d' @ rev (dropWhile is_space (rev g))"
      by (simp add: strip_def lead)
    then have "drop (length d') (strip (d @ g)) = rev (dropWhile is_space (rev g))" by simp
    moreover have "without_space (rev (dropWhile is_space (rev g))) = without_space g"
    proof -
      have a: "filter (\<lambda>c. \<not> is_space c) (dropWhile is_space xs) = filter (\<lambda>c. \<not> is_space c) xs"
        for xs by (induction xs) auto
      show ?thesis
        by (simp add: without_space_def rev_filter [symmetric] a)
    qed
    ultimately show ?thesis using len by (intro exI [of _ "length d'"]) simp
  qed
qed

lemma length_py_suffix: "0 < k \<Longrightarrow> int (length (py_suffix s k)) \<le> k"
  by (auto simp: py_suffix_def clamp_index_def)

lemma length_py_suffix_le: "length (py_suffix s k) \<le> length s"
  by (simp add: py_suffix_def)

lemma append_split_prefix:
  assumes "xs @ ys = zs @ ts" and "length zs \<le> length xs"
  shows "\<exists>us. xs = zs @ us \<and> ts = us @ ys"
  using assms by (auto simp: append_eq_append_conv2)

lemma split_by_characters_shape:
  assumes ov: "0 \<le> overlap_chars cfg" "overlap_chars cfg < max_chars cfg"
    and run: "split_by_characters cfg tx = Some cs" and ne: "tx \<noteq> []"
  shows "\<exists>rest. cs = take (nat (max_chars cfg)) tx # rest \<and>
           concat (map (drop (nat (overlap_chars cfg))) rest) = drop (nat (max_chars cfg)) tx"
proof -
  let ?o = "nat (overlap_chars cfg)"
  let ?m = "nat (max_chars cfg)"
  let ?c = "py_slice tx 0 (0 + max_chars cfg)"
  from ov have m0: "0 \<le> max_chars cfg" by arith
  from ne run have
    "split_by_characters_loop cfg tx (0 + (max_chars cfg - max 0 (overlap_chars cfg))) ([] @ [?c])
       = Some cs"
    using loop_unfold [of 0 "tx" cfg "[]"] by (simp add: split_by_characters_def)
  from loop_exact [OF ov this] ov obtain rest where
    r: "cs = [?c] @ rest"
    and c: "concat (map (drop ?o) rest)
      = drop (nat (0 + (max_chars cfg - max 0 (overlap_chars cfg))) + ?o) tx" by auto
  have "nat (0 + (max_chars cfg - max 0 (overlap_chars cfg))) + ?o = ?m" using ov by arith
  with c have "concat (map (drop ?o) rest) = drop ?m tx" by simp
  moreover have "?c = take ?m tx"
    using py_slice_nonneg [of 0 "max_chars cfg" tx] m0 by simp
  ultimately show ?thesis using r by simp
qed

lemma split_by_characters_reassemble:
  assumes ov: "0 \<le> overlap_chars cfg" "overlap_chars cfg < max_chars cfg"
    and run: "split_by_characters cfg t = Some sub"
    and t: "t = d @ g" and d: "int (length d) \<le> overlap_chars cfg"
  shows "\<exists>ps. map snd ps = sub \<and> (\<forall>p\<in>set ps. int (fst p) \<le> overlap_chars cfg) \<and>
           (ps \<noteq> [] \<longrightarrow> fst (hd ps) \<le> length d) \<and>
           reproduces g (concat (map (\<lambda>p. drop (fst p) (snd p)) ps))"
proof (cases "t = []")
  case True
  with run have "sub = []" by (simp add: split_by_characters_def loop_exit)
  with True t show ?thesis by (intro exI [of _ "[]"]) (simp add: reproduces_refl)
next
  case False
  let ?o = "nat (overlap_chars cfg)"
  let ?m = "nat (max_chars cfg)"
  from split_by_characters_shape [OF ov run False] obtain rest where
    sub: "sub = take ?m t # rest" and c: "concat (map (drop ?o) rest) = drop ?m t" by blast
  let ?ps = "(length d, take ?m t) # map (\<lambda>c. (?o, c)) rest"
  from d ov have dm: "length d \<le> ?m" by arith
  have "drop (length d) (take ?m t @ drop ?m t)
      = drop (length d) (take ?m t) @ drop (length d - length (take ?m t)) (drop ?m t)"
    by (rule drop_append)
  also have "drop (length d - length (take ?m t)) (drop ?m t) = drop ?m t"
    using dm by (cases "?m \<le> length t") simp_all
  finally have "drop (length d) (take ?m t) @ drop ?m t = drop (length d) t"
    by simp
  also have "\<dots> = g" by (simp add: t)
  finally have "concat (map (\<lambda>p. drop (fst p) (snd p)) ?ps) = g"
    by (simp add: c [symmetric] comp_def)
  then have "reproduces g (concat (map (\<lambda>p. drop (fst p) (snd p)) ?ps))"
    by (simp only: reproduces_refl)
  moreover have "map snd ?ps = sub" by (simp add: sub comp_def)
  moreover have "\<forall>p\<in>set ?ps. int (fst p) \<le> overlap_chars cfg" using d ov by auto
  moreover have "fst (hd ?ps) \<le> length d" by simp
  ultimately show ?thesis by blast
qed

lemma split_loop_reassemble:
  assumes ov: "0 \<le> overlap_chars cfg" "overlap_chars cfg < max_chars cfg"
    and sep: "sep \<noteq> []"
    and rec: "\<And>t d g sub. recurse t = Some sub \<Longrightarrow> t = d @ g \<Longrightarrow>
        int (length d) \<le> overlap_chars cfg \<Longrightarrow>
        \<exists>ps. map snd ps = sub \<and> (\<forall>p\<in>set ps. int (fst p) \<le> overlap_chars cfg) \<and>
             (ps \<noteq> [] \<longrightarrow> fst (hd ps) \<le> length d) \<and>
             reproduces g (concat (map (\<lambda>p. drop (fst p) (snd p)) ps))"
  shows "split_loop cfg sep recurse splits chunks cur = Some r \<Longrightarrow>
         cur @ concat (map (\<lambda>s. s @ sep) splits) = d @ g \<Longrightarrow>
         int (length d) \<le> overlap_chars cfg \<Longrightarrow>
         (cur = [] \<longrightarrow> chunks = [] \<or> d = []) \<Longrightarrow>
         \<exists>ps. r = chunks @ map snd ps \<and> (\<forall>p\<in>set ps. int (fst p) \<le> overlap_chars cfg) \<and>
              (chunks = [] \<longrightarrow> ps \<noteq> [] \<longrightarrow> fst (hd ps) \<le> length d) \<and>
              reproduces g (concat (map (\<lambda>p. drop (fst p) (snd p)) ps))"
proof (induction splits arbitrary: chunks cur d g)
  case Nil
  from Nil.prems(2) have cur: "cur = d @ g" by simp
  show ?case
  proof (cases "cur = []")
    case True
    with Nil.prems(1) cur show ?thesis
      by (intro exI [of _ "[]"]) (simp add: reproduces_refl)
  next
    case False
    from strip_prefix_drop [of d g] obtain k where
      k: "k \<le> length d" "without_space (drop k (strip (d @ g))) = without_space g" by blast
    from False Nil.prems(1) have r: "r = chunks @ [strip cur]" by simp
    from k(2) have "reproduces g (drop k (strip cur))"
      unfolding cur by (rule reproduces_space)
    with k(1) r Nil.prems(3) show ?thesis
      by (intro exI [of _ "[(k, strip cur)]"]) simp
  qed
next
  case (Cons s splits)
  let ?rest = "concat (map (\<lambda>s. s @ sep) splits)"
  let ?sws = "s @ sep"
  have pend: "cur @ ?sws @ ?rest = d @ g" using Cons.prems(2) by simp
  show ?case
  proof (cases "int (length cur) + int (length ?sws) \<le> max_chars cfg")
    case True
    with Cons.prems(1) have
      run: "split_loop cfg sep recurse splits chunks (cur @ ?sws) = Some r"
      by (simp add: Let_def)
    have "(cur @ ?sws) @ ?rest = d @ g" using pend by simp
    from Cons.IH [OF run this Cons.prems(3)] sep show ?thesis by simp
  next
    case False
    have cont: "\<exists>ps. r = chunks1 @ map snd ps \<and>
              (\<forall>p\<in>set ps. int (fst p) \<le> overlap_chars cfg) \<and>
              (chunks1 = [] \<longrightarrow> ps \<noteq> [] \<longrightarrow> fst (hd ps) \<le> length d1) \<and>
              reproduces g1 (concat (map (\<lambda>p. drop (fst p) (snd p)) ps))"
      if run1: "(if int (length cur1) > max_chars cfg
                 then (case recurse cur1 of
                         None \<Rightarrow> None
                       | Some sub \<Rightarrow>
                           split_loop cfg sep recurse splits (chunks1 @ butlast sub)
                             (if sub \<noteq> [] then last sub else []))
                 else split_loop cfg sep recurse splits chunks1 cur1) = Some r"
        and ne: "cur1 \<noteq> []" and p1: "cur1 @ ?rest = d1 @ g1"
        and l1: "int (length d1) \<le> overlap_chars cfg"
      for chunks1 cur1 d1 g1
    proof (cases "int (length cur1) > max_chars cfg")
      case F: False
      with run1 have "split_loop cfg sep recurse splits chunks1 cur1 = Some r" by simp
      from Cons.IH [OF this p1 l1] ne show ?thesis by simp
    next
      case T: True
      with run1 obtain sub where sub: "recurse cur1 = Some sub"
        and run2: "split_loop cfg sep recurse splits (chunks1 @ butlast sub)
                     (if sub \<noteq> [] then last sub else []) = Some r"
        by (auto split: option.splits)
      from T l1 ov have "length d1 \<le> length cur1" by arith
      from append_split_prefix [OF p1 this] obtain g' where
        c1: "cur1 = d1 @ g'" and g1: "g1 = g' @ ?rest" by blast
      from rec [OF sub c1 l1] obtain pss where
        s1: "map snd pss = sub"
        and s2: "\<forall>p\<in>set pss. int (fst p) \<le> overlap_chars cfg"
        and s3: "pss \<noteq> [] \<longrightarrow> fst (hd pss) \<le> length d1"
        and s4: "reproduces g' (concat (map (\<lambda>p. drop (fst p) (snd p)) pss))" by blast
      show ?thesis
      proof (cases pss rule: rev_cases)
        case Nil
        with s1 have sub0: "sub = []" by simp
        with run2 have run3: "split_loop cfg sep recurse splits chunks1 [] = Some r" by simp
        have "[] @ ?rest = [] @ ?rest" by simp
        from Cons.IH [OF run3 this] ov(1) obtain ps2 where
          a: "r = chunks1 @ map snd ps2"
          and b: "\<forall>p\<in>set ps2. int (fst p) \<le> overlap_chars cfg"
          and c: "chunks1 = [] \<longrightarrow> ps2 \<noteq> [] \<longrightarrow> fst (hd ps2) \<le> length ([]::pystr)"
          and e: "reproduces ?rest (concat (map (\<lambda>p. drop (fst p) (snd p)) ps2))" by auto
        from s4 Nil have "reproduces g' []" by simp
        from reproduces_append [OF this e] have
          "reproduces g1 (concat (map (\<lambda>p. drop (fst p) (snd p)) ps2))" by (simp add: g1)
        with a b c show ?thesis by (intro exI [of _ ps2]) auto
      next
        case (snoc psb pl)
        obtain kl cl where pl: "pl = (kl, cl)" by (cases pl)
        from s1 snoc pl have sub': "sub = map snd psb @ [cl]" by simp
        with run2 have run3:
          "split_loop cfg sep recurse splits ((chunks1 @ map snd psb)) cl = Some r" by simp
        from s2 snoc pl have kl: "int kl \<le> overlap_chars cfg" by simp
        have p3: "cl @ ?rest = take kl cl @ (drop kl cl @ ?rest)" by simp
        have l3: "int (length (take kl cl)) \<le> overlap_chars cfg" using kl by simp
        have side: "cl = [] \<longrightarrow> chunks1 @ map snd psb = [] \<or> take kl cl = []" by simp
        from Cons.IH [OF run3 p3 l3 side] obtain ps2 where
          a: "r = (chunks1 @ map snd psb) @ map snd ps2"
          and b: "\<forall>p\<in>set ps2. int (fst p) \<le> overlap_chars cfg"
          and c: "chunks1 @ map snd psb = [] \<longrightarrow> ps2 \<noteq> [] \<longrightarrow>
                    fst (hd ps2) \<le> length (take kl cl)"
          and e: "reproduces (drop kl cl @ ?rest) (concat (map (\<lambda>p. drop (fst p) (snd p)) ps2))"
          by blast
        from s4 snoc pl have
          "reproduces g' (concat (map (\<lambda>p. drop (fst p) (snd p)) psb) @ drop kl cl)" by simp
        from reproduces_chain [OF this e] have rep:
          "reproduces g1 (concat (map (\<lambda>p. drop (fst p) (snd p)) (psb @ ps2)))"
          by (simp add: g1)
        have first: "chunks1 = [] \<longrightarrow> psb @ ps2 \<noteq> [] \<longrightarrow> fst (hd (psb @ ps2)) \<le> length d1"
        proof (intro impI)
          assume c0: "chunks1 = []" and "psb @ ps2 \<noteq> []"
          show "fst (hd (psb @ ps2)) \<le> length d1"
          proof (cases "psb = []")
            case True
            with s3 snoc pl have "kl \<le> length d1" by simp
            moreover from c c0 True \<open>psb @ ps2 \<noteq> []\<close> have "fst (hd ps2) \<le> length (take kl cl)"
              by simp
            ultimately show ?thesis using True by simp
          next
            case False
            with s3 snoc show ?thesis by simp
          qed
        qed
        from a b s2 snoc rep first show ?thesis
          by (intro exI [of _ "psb @ ps2"]) auto
      qed
    qed
    define chunks1 where "chunks1 = (if cur \<noteq> [] then chunks @ [strip cur] else chunks)"
    define ovl where "ovl = (if chunks1 \<noteq> [] \<and> overlap_chars cfg > 0
        then py_suffix (last chunks1) (overlap_chars cfg) else [])"
    define cur1 where "cur1 = ovl @ ?sws"
    have cur1_eq: "cur1 = (if chunks1 \<noteq> [] \<and> overlap_chars cfg > 0
        then py_suffix (last chunks1) (overlap_chars cfg) @ ?sws else ?sws)"
      by (simp add: cur1_def ovl_def)
    from False Cons.prems(1) have run1:
      "(if int (length cur1) > max_chars cfg
        then (case recurse cur1 of
                None \<Rightarrow> None
              | Some sub \<Rightarrow>
                  split_loop cfg sep recurse splits (chunks1 @ butlast sub)
                    (if sub \<noteq> [] then last sub else []))
        else split_loop cfg sep recurse splits chunks1 cur1) = Some r"
      unfolding cur1_eq chunks1_def by (simp add: Let_def)
    have ne: "cur1 \<noteq> []" using sep by (simp add: cur1_def)
    have ovl_len: "int (length ovl) \<le> overlap_chars cfg"
      using ov(1) length_py_suffix [of "overlap_chars cfg" "last chunks1"] by (simp add: ovl_def)
    show ?thesis
    proof (cases "cur = []")
      case True
      then have c1: "chunks1 = chunks" by (simp add: chunks1_def)
      from True pend have p1: "cur1 @ ?rest = (ovl @ d) @ g" by (simp add: cur1_def)
      from True Cons.prems(4) have "chunks = [] \<or> d = []" by simp
      then have l1: "int (length (ovl @ d)) \<le> overlap_chars cfg"
        and l2: "chunks = [] \<longrightarrow> ovl = []"
        using ovl_len Cons.prems(3) by (auto simp: ovl_def c1)
      from cont [OF run1 ne p1 l1] l2 c1 show ?thesis by auto
    next
      case False
      then have c1: "chunks1 = chunks @ [strip cur]" by (simp add: chunks1_def)
      have ovl_e: "length ovl \<le> length cur"
        using length_py_suffix_le [of "strip cur" "overlap_chars cfg"] length_strip [of cur]
        by (simp add: ovl_def c1)
      show ?thesis
      proof (cases "length cur \<le> length d")
        case True
        from pend have "d @ g = cur @ (?sws @ ?rest)" by simp
        from append_split_prefix [OF this True] obtain d' where
          d: "d = cur @ d'" and q: "?sws @ ?rest = d' @ g" by blast
        have p1: "cur1 @ ?rest = (ovl @ d') @ g" using q by (simp add: cur1_def)
        have l1: "int (length (ovl @ d')) \<le> overlap_chars cfg"
          using ovl_e Cons.prems(3) by (simp add: d)
        from cont [OF run1 ne p1 l1] obtain ps1 where
          a: "r = chunks1 @ map snd ps1"
          and b: "\<forall>p\<in>set ps1. int (fst p) \<le> overlap_chars cfg"
          and e: "reproduces g (concat (map (\<lambda>p. drop (fst p) (snd p)) ps1))" by blast
        have k: "length (strip cur) \<le> length d"
          using length_strip [of cur] True by simp
        with Cons.prems(3) have "int (length (strip cur)) \<le> overlap_chars cfg" by simp
        with a b e k show ?thesis
          by (intro exI [of _ "(length (strip cur), strip cur) # ps1"]) (simp add: c1)
      next
        case F2: False
        then have "length d \<le> length cur" by simp
        from append_split_prefix [OF _ this, of "?sws @ ?rest" g] pend obtain ga where
          cu: "cur = d @ ga" and gg: "g = ga @ ?sws @ ?rest" by auto
        from strip_prefix_drop [of d ga] obtain k where
          k: "k \<le> length d" "without_space (drop k (strip (d @ ga))) = without_space ga"
          by blast
        from k(2) have rk: "reproduces ga (drop k (strip cur))"
          unfolding cu by (rule reproduces_space)
        have p1: "cur1 @ ?rest = ovl @ (?sws @ ?rest)" by (simp add: cur1_def)
        from cont [OF run1 ne p1 ovl_len] obtain ps1 where
          a: "r = chunks1 @ map snd ps1"
          and b: "\<forall>p\<in>set ps1. int (fst p) \<le> overlap_chars cfg"
          and e: "reproduces (?sws @ ?rest) (concat (map (\<lambda>p. drop (fst p) (snd p)) ps1))"
          by blast
        from reproduces_append [OF rk e] have
          "reproduces g (drop k (strip cur) @ concat (map (\<lambda>p. drop (fst p) (snd p)) ps1))"
          by (simp add: gg)
        moreover from k(1) Cons.prems(3) have "int k \<le> overlap_chars cfg" by simp
        ultimately show ?thesis using a b k(1)
          by (intro exI [of _ "(k, strip cur) # ps1"]) (simp add: c1)
      qed
    qed
  qed
qed

lemma try_separators_reassemble:
  assumes ov: "0 \<le> overlap_chars cfg" "overlap_chars cfg < max_chars cfg"
  shows "\<forall>sep\<in>set seps. without_separator_chars sep = [] \<Longrightarrow>
         try_separators seps cfg t = Some sub \<Longrightarrow> t = d @ g \<Longrightarrow>
         int (length d) \<le> overlap_chars cfg \<Longrightarrow>
         \<exists>ps. map snd ps = sub \<and> (\<forall>p\<in>set ps. int (fst p) \<le> overlap_chars cfg) \<and>
              (ps \<noteq> [] \<longrightarrow> fst (hd ps) \<le> length d) \<and>
              reproduces g (concat (map (\<lambda>p. drop (fst p) (snd p)) ps))"
proof (induction seps arbitrary: t d g sub)
  case Nil
  from split_by_characters_reassemble [OF ov _ Nil.prems(3,4)] Nil.prems(2)
  show ?case by simp
next
  case (Cons sep seps)
  show ?case
  proof (cases "sep = []")
    case True
    from split_by_characters_reassemble [OF ov _ Cons.prems(3,4)] Cons.prems(2) True
    show ?thesis by simp
  next
    case False
    show ?thesis
    proof (cases "contains sep t")
      case True
      let ?rec = "\<lambda>t. if int (length t) \<le> max_chars cfg then Some (if t \<noteq> [] then [t] else [])
               else try_separators seps cfg t"
      have rec: "\<exists>ps. map snd ps = sub \<and> (\<forall>p\<in>set ps. int (fst p) \<le> overlap_chars cfg) \<and>
             (ps \<noteq> [] \<longrightarrow> fst (hd ps) \<le> length d) \<and>
             reproduces g (concat (map (\<lambda>p. drop (fst p) (snd p)) ps))"
        if r: "?rec t = Some sub" and t: "t = d @ g" and d: "int (length d) \<le> overlap_chars cfg"
        for t d g sub
      proof (cases "int (length t) \<le> max_chars cfg")
        case F: False
        with r have "try_separators seps cfg t = Some sub" by simp
        from Cons.IH [OF _ this t d] Cons.prems(1) show ?thesis by simp
      next
        case T: True
        show ?thesis
        proof (cases "t = []")
          case True
          with T r t show ?thesis by (intro exI [of _ "[]"]) (auto simp: reproduces_refl)
        next
          case False
          with T r have "sub = [t]" by simp
          with t d show ?thesis
            by (intro exI [of _ "[(length d, t)]"]) (simp add: reproduces_refl)
        qed
      qed
      from Cons.prems(2) False True have
        run: "split_loop cfg sep ?rec (str_split t sep) [] [] = Some sub" by simp
      have pend: "[] @ concat (map (\<lambda>s. s @ sep) (str_split t sep)) = d @ (g @ sep)"
        by (simp add: str_split_join [OF False] Cons.prems(3))
      have "\<exists>ps. sub = [] @ map snd ps \<and> (\<forall>p\<in>set ps. int (fst p) \<le> overlap_chars cfg) \<and>
              (([]::pystr list) = [] \<longrightarrow> ps \<noteq> [] \<longrightarrow> fst (hd ps) \<le> length d) \<and>
              reproduces (g @ sep) (concat (map (\<lambda>p. drop (fst p) (snd p)) ps))"
      proof (rule split_loop_reassemble [where recurse = ?rec, OF ov False _ run pend Cons.prems(4)])
        fix t' d' g' sub'
        assume "?rec t' = Some sub'" "t' = d' @ g'" "int (length d') \<le> overlap_chars cfg"
        then show "\<exists>ps. map snd ps = sub' \<and> (\<forall>p\<in>set ps. int (fst p) \<le> overlap_chars cfg) \<and>
             (ps \<noteq> [] \<longrightarrow> fst (hd ps) \<le> length d') \<and>
             reproduces g' (concat (map (\<lambda>p. drop (fst p) (snd p)) ps))"
          by (rule rec)
      qed simp
      then obtain ps where
        a: "sub = map snd ps" and b: "\<forall>p\<in>set ps. int (fst p) \<le> overlap_chars cfg"
        and c: "ps \<noteq> [] \<longrightarrow> fst (hd ps) \<le> length d"
        and e: "reproduces (g @ sep) (concat (map (\<lambda>p. drop (fst p) (snd p)) ps))"
        by auto
      from Cons.prems(1) have "without_separator_chars sep = []" by simp
      from reproduces_trans [OF reproduces_separator [OF this] e] a b c
      show ?thesis by blast
    next
      case F2: False
      with Cons.prems(2) False have "try_separators seps cfg t = Some sub" by simp
      from Cons.IH [OF _ this Cons.prems(3,4)] Cons.prems(1) show ?thesis by simp
    qed
  qed
qed

lemma separators_chars:
  "\<forall>sep\<in>set separators. without_separator_chars sep = []"
  by (simp add: separators_def without_separator_chars_def is_separator_char_def is_space_def)

lemma strip_and_concat_pairs:
  "strip_and_concat (map fst ps) (map snd ps) = concat (map (\<lambda>p. drop (fst p) (snd p)) ps)"
  by (simp add: strip_and_concat_def zip_map_fst_snd case_prod_unfold)

lemma recursive_split_reassemble:
  assumes ov: "0 \<le> overlap_chars cfg" "overlap_chars cfg < max_chars cfg"
    and run: "recursive_split cfg tx = Some chunks"
  shows "\<exists>ks. length ks = length chunks \<and> (\<forall>k\<in>set ks. int k \<le> overlap_chars cfg) \<and>
           (ks \<noteq> [] \<longrightarrow> hd ks = 0) \<and> reproduces tx (strip_and_concat ks chunks)"
proof -
  have "\<exists>ps. map snd ps = chunks \<and> (\<forall>p\<in>set ps. int (fst p) \<le> overlap_chars cfg) \<and>
             (ps \<noteq> [] \<longrightarrow> fst (hd ps) \<le> length ([]::pystr)) \<and>
             reproduces tx (concat (map (\<lambda>p. drop (fst p) (snd p)) ps))"
  proof (cases "int (length tx) \<le> max_chars cfg")
    case False
    with run have "try_separators separators cfg tx = Some chunks"
      by (simp add: recursive_split_def split_text_recursive_def)
    from try_separators_reassemble [OF ov separators_chars this, of "[]" tx] ov(1)
    show ?thesis by simp
  next
    case True
    show ?thesis
    proof (cases "tx = []")
      case T: True
      with True run show ?thesis
        by (intro exI [of _ "[]"])
           (simp add: recursive_split_def split_text_recursive_def reproduces_refl)
    next
      case False
      with True run have "chunks = [tx]"
        by (simp add: recursive_split_def split_text_recursive_def)
      with ov(1) show ?thesis
        by (intro exI [of _ "[(0, tx)]"]) (simp add: reproduces_refl)
    qed
  qed
  then obtain ps where
    a: "map snd ps = chunks" and b: "\<forall>p\<in>set ps. int (fst p) \<le> overlap_chars cfg"
    and c: "ps \<noteq> [] \<longrightarrow> fst (hd ps) = 0"
    and e: "reproduces tx (concat (map (\<lambda>p. drop (fst p) (snd p)) ps))" by auto
  from e a have "reproduces tx (strip_and_concat (map fst ps) chunks)"
    using strip_and_concat_pairs [of ps] by simp
  moreover have "length (map fst ps) = length chunks" using a by auto
  moreover have "\<forall>k\<in>set (map fst ps). int k \<le> overlap_chars cfg" using b by simp
  moreover have "map fst ps \<noteq> [] \<longrightarrow> hd (map fst ps) = 0" using c by (simp add: hd_map)
  ultimately show ?thesis by blast
qed

text \<open>
  C1, amended: under a configuration with \<open>0 \<le> chunk_overlap < chunk_size\<close>,
  \<^verbatim>\<open>chunk_text\<close> returns chunks for which there are lengths \<open>ks\<close>, one for each
  chunk, the first of them 0 and none above \<open>overlap_chars\<close>, such that the chunk
  texts, concatenated after \<open>ks ! i\<close> characters have been removed from the start
  of chunk \<open>i\<close>, reproduce the input up to separator characters: the characters
  of the input other than whitespace occur in the result in their order, and the
  result is equal to the input once whitespace and the punctuation marks
  \<^verbatim>\<open>. ! ? ; ,\<close> are removed from both. Where the text is cut by the
  character-level splitter, the length is \<open>overlap_chars\<close> for every chunk after
  the first and the text is reproduced exactly.
\<close>

theorem chunks_reassemble:
  assumes "0 \<le> chunk_overlap cfg" and "chunk_overlap cfg < chunk_size cfg"
  shows "(\<exists>cs ks. chunk_text cfg tx page_range doc_id = Some cs \<and> length ks = length cs \<and>
            (\<forall>k\<in>set ks. int k \<le> overlap_chars cfg) \<and> (ks \<noteq> [] \<longrightarrow> hd ks = 0) \<and>
            reproduces tx (strip_and_concat ks (map text' cs))) \<and>
         (split_by_characters cfg tx = Some chunks \<longrightarrow> strip_overlap_concat cfg chunks = tx)"
proof
  from assms have ov: "0 \<le> overlap_chars cfg" "overlap_chars cfg < max_chars cfg"
    by (simp_all add: overlap_chars_def max_chars_def chars_per_token_def)
  then have pos: "0 < max_chars cfg - max 0 (overlap_chars cfg)" by arith
  show "split_by_characters cfg tx = Some chunks \<longrightarrow> strip_overlap_concat cfg chunks = tx"
    using ov by (simp add: split_by_characters_exact)
  show "\<exists>cs ks. chunk_text cfg tx page_range doc_id = Some cs \<and> length ks = length cs \<and>
            (\<forall>k\<in>set ks. int k \<le> overlap_chars cfg) \<and> (ks \<noteq> [] \<longrightarrow> hd ks = 0) \<and>
            reproduces tx (strip_and_concat ks (map text' cs))"
  proof (cases "tx = [] \<or> strip tx = []")
    case True
    then have "without_space tx = []"
      by (auto simp: strip_Nil_iff without_space_def)
    then have "reproduces tx []" by (intro reproduces_space) simp
    with True show ?thesis
      by (intro exI [of _ "[]"]) (simp add: chunk_text_def strip_and_concat_def)
  next
    case False
    from try_separators_terminates [OF pos, of separators tx] obtain r where
      "try_separators separators cfg tx = Some r" by blast
    then obtain chunks' where rs: "recursive_split cfg tx = Some chunks'"
      by (cases "int (length tx) \<le> max_chars cfg")
         (simp_all add: recursive_split_def split_text_recursive_def)
    let ?cs = "map (\<lambda>(idx, c). \<lparr>text' = c,
        metadata = \<lparr>docId = doc_id, pageRange = page_range, chunkIndex = idx\<rparr>\<rparr>)
        (enumerate 0 chunks')"
    from False rs have ct: "chunk_text cfg tx page_range doc_id = Some ?cs"
      by (simp add: chunk_text_def)
    have mt: "map text' ?cs = chunks'" by (simp add: map_text_enumerate)
    from recursive_split_reassemble [OF ov rs] obtain ks where
      "length ks = length chunks'" "\<forall>k\<in>set ks. int k \<le> overlap_chars cfg"
      "ks \<noteq> [] \<longrightarrow> hd ks = 0" "reproduces tx (strip_and_concat ks chunks')" by blast
    with ct mt show ?thesis
      by (intro exI [of _ ?cs] exI [of _ ks]) simp
  qed
qed

theorem chunks_reassemble_witness:
  "(\<exists>cs ks. chunk_text \<lparr>chunk_size = 2, chunk_overlap = 1\<rparr> (str ''ab cdefgh ij'') (str ''1-10'')
              (str ''doc'') = Some cs \<and> length ks = length cs \<and>
            list_all (\<lambda>k. int k \<le> 4) ks \<and> hd ks = 0 \<and>
            reproduces (str ''ab cdefgh ij'') (strip_and_concat ks (map text' cs))) \<and>
   map_option (map text')
     (chunk_text \<lparr>chunk_size = 2, chunk_overlap = 1\<rparr> (str ''ab cdefgh ij'') (str ''1-10'')
        (str ''doc''))
     = Some [str ''ab'', str ''abcdefgh'', str ''efgh '', str ''ij''] \<and>
   strip_and_concat [0, 2, 4, 0] [str ''ab'', str ''abcdefgh'', str ''efgh '', str ''ij'']
     = str ''abcdefgh ij''"
proof -
  have ex: "map_option (map text')
     (chunk_text \<lparr>chunk_size = 2, chunk_overlap = 1\<rparr> (str ''ab cdefgh ij'') (str ''1-10'')
        (str ''doc''))
     = Some [str ''ab'', str ''abcdefgh'', str ''efgh '', str ''ij'']"
    by (simp add: chunker_defs loop_unfold loop_exit)
  have sc: "strip_and_concat [0, 2, 4, 0]
      [str ''ab'', str ''abcdefgh'', str ''efgh '', str ''ij''] = str ''abcdefgh ij''"
    by (simp add: strip_and_concat_def str_def)
  from chunks_reassemble [of "\<lparr>chunk_size = 2, chunk_overlap = 1\<rparr>" "str ''ab cdefgh ij''"
      "str ''1-10''" "str ''doc''" "[]"]
  obtain cs ks where
    a: "chunk_text \<lparr>chunk_size = 2, chunk_overlap = 1\<rparr> (str ''ab cdefgh ij'') (str ''1-10'')
              (str ''doc'') = Some cs"
    and b: "length ks = length cs"
    and c: "\<forall>k\<in>set ks. int k \<le> overlap_chars \<lparr>chunk_size = 2, chunk_overlap = 1\<rparr>"
    and d: "ks \<noteq> [] \<longrightarrow> hd ks = 0"
    and e: "reproduces (str ''ab cdefgh ij'') (strip_and_concat ks (map text' cs))"
    by auto
  from a ex have "cs \<noteq> []" by auto
  with b d have h: "hd ks = 0" by auto
  from c have "list_all (\<lambda>k. int k \<le> 4) ks"
    by (simp add: list_all_iff overlap_chars_def chars_per_token_def)
  with a b h e ex sc show ?thesis by blast
qed

text \<open>
  C1, as stated: concatenating the chunk texts, with the overlap length removed
  from the start of every chunk after the first, gives back the input up to
  whitespace. With a budget of 8 characters and an overlap of 4 the text
  \<^verbatim>\<open>"ab cdefgh ij"\<close> is cut into \<^verbatim>\<open>"ab"\<close>, \<^verbatim>\<open>"abcdefgh"\<close>, \<^verbatim>\<open>"efgh "\<close> and \<^verbatim>\<open>"ij"\<close>:
  the overlap taken from the chunk \<^verbatim>\<open>"ab"\<close> has two characters, not four, and the
  overlap at the start of the last chunk was a single space, which \<^verbatim>\<open>strip()\<close>
  removed, so that removing four characters from each chunk loses \<^verbatim>\<open>"cd"\<close> and
  \<^verbatim>\<open>"ij"\<close>.
\<close>

theorem overlap_stripping_loses_text:
  "map_option (map text')
     (chunk_text \<lparr>chunk_size = 2, chunk_overlap = 1\<rparr> (str ''ab cdefgh ij'') (str ''1-10'')
        (str ''doc''))
     = Some [str ''ab'', str ''abcdefgh'', str ''efgh '', str ''ij''] \<and>
   without_space (strip_overlap_concat \<lparr>chunk_size = 2, chunk_overlap = 1\<rparr>
       [str ''ab'', str ''abcdefgh'', str ''efgh '', str ''ij''])
     = str ''abefgh'' \<and>
   without_space (str ''ab cdefgh ij'') = str ''abcdefghij'' \<and>
   map_option (\<lambda>cs. without_space
       (strip_overlap_concat \<lparr>chunk_size = 2, chunk_overlap = 1\<rparr> (map text' cs)))
     (chunk_text \<lparr>chunk_size = 2, chunk_overlap = 1\<rparr> (str ''ab cdefgh ij'') (str ''1-10'')
        (str ''doc''))
   \<noteq> Some (without_space (str ''ab cdefgh ij''))"
  by (simp add: chunker_defs loop_unfold loop_exit strip_overlap_concat_def without_space_def)

section \<open>Size of the chunks\<close>

text \<open>
  No chunk that \<^verbatim>\<open>chunk_text\<close> returns is longer than \<open>max_chars\<close>, the last one
  included.
\<close>

lemma loop_bound:
  assumes pos: "0 < max_chars cfg - max 0 (overlap_chars cfg)"
    and run: "split_by_characters_loop cfg tx start chunks = Some r"
  shows "0 \<le> start \<longrightarrow> (\<forall>c\<in>set chunks. int (length c) \<le> max_chars cfg) \<longrightarrow>
         (\<forall>c\<in>set r. int (length c) \<le> max_chars cfg)"
proof (rule loop_rule [OF pos run])
  fix start :: int and chunks :: "pystr list"
  show "0 \<le> start \<longrightarrow> (\<forall>c\<in>set chunks. int (length c) \<le> max_chars cfg) \<longrightarrow>
         (\<forall>c\<in>set chunks. int (length c) \<le> max_chars cfg)" by simp
next
  fix start :: int and chunks r :: "pystr list"
  let ?chunk = "py_slice tx start (start + max_chars cfg)"
  assume ih: "0 \<le> start + (max_chars cfg - max 0 (overlap_chars cfg)) \<longrightarrow>
         (\<forall>c\<in>set (chunks @ [?chunk]). int (length c) \<le> max_chars cfg) \<longrightarrow>
         (\<forall>c\<in>set r. int (length c) \<le> max_chars cfg)"
  show "0 \<le> start \<longrightarrow> (\<forall>c\<in>set chunks. int (length c) \<le> max_chars cfg) \<longrightarrow>
         (\<forall>c\<in>set r. int (length c) \<le> max_chars cfg)"
  proof (intro impI)
    assume s0: "0 \<le> start" and b: "\<forall>c\<in>set chunks. int (length c) \<le> max_chars cfg"
    from pos have m0: "0 \<le> max_chars cfg" by arith
    have "?chunk = take (nat (max_chars cfg)) (drop (nat start) tx)"
      by (rule py_slice_nonneg [OF s0 m0])
    then have "int (length ?chunk) \<le> max_chars cfg" using m0 by simp
    with b have b': "\<forall>c\<in>set (chunks @ [?chunk]). int (length c) \<le> max_chars cfg"
      by simp
    from s0 pos have "0 \<le> start + (max_chars cfg - max 0 (overlap_chars cfg))" by arith
    with ih b' show "\<forall>c\<in>set r. int (length c) \<le> max_chars cfg" by blast
  qed
qed

lemma split_by_characters_bound:
  assumes "split_by_characters cfg tx = Some cs"
  shows "\<forall>c\<in>set cs. int (length c) \<le> max_chars cfg"
proof (cases "0 < max_chars cfg - max 0 (overlap_chars cfg)")
  case True
  from loop_bound [OF True assms [unfolded split_by_characters_def]] show ?thesis by simp
next
  case False
  with loop_stuck [OF assms [unfolded split_by_characters_def]] have "tx = []" by auto
  with assms have "cs = []" by (simp add: split_by_characters_def loop_exit)
  then show ?thesis by simp
qed

lemma split_loop_bound:
  assumes rec: "\<And>t sub. recurse t = Some sub \<Longrightarrow> \<forall>c\<in>set sub. int (length c) \<le> max_chars cfg"
  shows "split_loop cfg sep recurse splits chunks cur = Some r \<Longrightarrow>
         \<forall>c\<in>set chunks. int (length c) \<le> max_chars cfg \<Longrightarrow>
         cur = [] \<or> int (length cur) \<le> max_chars cfg \<Longrightarrow>
         \<forall>c\<in>set r. int (length c) \<le> max_chars cfg"
proof (induction splits arbitrary: chunks cur)
  case Nil
  have "int (length (strip cur)) \<le> int (length cur)" using length_strip [of cur] by simp
  with Nil show ?case by (auto split: if_splits)
next
  case (Cons s splits)
  show ?case
  proof (cases "int (length cur) + int (length (s @ sep)) \<le> max_chars cfg")
    case True
    with Cons.prems have "split_loop cfg sep recurse splits chunks (cur @ s @ sep) = Some r"
      by (simp add: Let_def)
    from Cons.IH [OF this Cons.prems(2)] True show ?thesis by simp
  next
    case False
    define chunks1 where "chunks1 = (if cur \<noteq> [] then chunks @ [strip cur] else chunks)"
    define current1 where "current1 =
       (if chunks1 \<noteq> [] \<and> overlap_chars cfg > 0
        then py_suffix (last chunks1) (overlap_chars cfg) @ s @ sep else s @ sep)"
    have "int (length (strip cur)) \<le> int (length cur)" using length_strip [of cur] by simp
    with Cons.prems(2,3) have b1: "\<forall>c\<in>set chunks1. int (length c) \<le> max_chars cfg"
      by (auto simp: chunks1_def)
    show ?thesis
    proof (cases "int (length current1) > max_chars cfg")
      case True
      with False Cons.prems(1) obtain sub where sub: "recurse current1 = Some sub"
        and run: "split_loop cfg sep recurse splits (chunks1 @ butlast sub)
                    (if sub \<noteq> [] then last sub else []) = Some r"
        by (auto simp: Let_def chunks1_def [symmetric] current1_def [symmetric]
              split: option.splits)
      from rec [OF sub] have bs: "\<forall>c\<in>set sub. int (length c) \<le> max_chars cfg" .
      then have "\<forall>c\<in>set (butlast sub). int (length c) \<le> max_chars cfg"
        by (meson in_set_butlastD)
      with b1 have b2: "\<forall>c\<in>set (chunks1 @ butlast sub). int (length c) \<le> max_chars cfg"
        by auto
      from bs have b3: "(if sub \<noteq> [] then last sub else []) = [] \<or>
          int (length (if sub \<noteq> [] then last sub else [])) \<le> max_chars cfg"
        by simp
      from Cons.IH [OF run b2 b3] show ?thesis .
    next
      case F2: False
      with False Cons.prems(1) have run: "split_loop cfg sep recurse splits chunks1 current1 = Some r"
        by (simp add: Let_def chunks1_def [symmetric] current1_def [symmetric])
      from F2 have "current1 = [] \<or> int (length current1) \<le> max_chars cfg" by simp
      from Cons.IH [OF run b1 this] show ?thesis .
    qed
  qed
qed

lemma try_separators_bound:
  "try_separators seps cfg tx = Some r \<Longrightarrow> \<forall>c\<in>set r. int (length c) \<le> max_chars cfg"
proof (induction seps arbitrary: tx r)
  case Nil
  then show ?case by (simp add: split_by_characters_bound)
next
  case (Cons sep seps)
  show ?case
  proof (cases "sep = []")
    case True
    with Cons.prems show ?thesis by (simp add: split_by_characters_bound)
  next
    case False
    show ?thesis
    proof (cases "contains sep tx")
      case True
      let ?rec = "\<lambda>t. if int (length t) \<le> max_chars cfg then Some (if t \<noteq> [] then [t] else [])
               else try_separators seps cfg t"
      have rec: "\<And>t sub. ?rec t = Some sub \<Longrightarrow> \<forall>c\<in>set sub. int (length c) \<le> max_chars cfg"
        by (auto simp: Cons.IH split: if_splits)
      from Cons.prems False True have
        "split_loop cfg sep ?rec (str_split tx sep) [] [] = Some r" by simp
      from split_loop_bound [of ?rec, OF rec this] show ?thesis by simp
    next
      case F2: False
      with Cons.prems False show ?thesis by (simp add: Cons.IH)
    qed
  qed
qed

lemma chunk_text_bound:
  assumes "chunk_text cfg tx page_range doc_id = Some cs"
  shows "\<forall>c\<in>set cs. int (length (text' c)) \<le> max_chars cfg"
proof (cases "tx = [] \<or> strip tx = []")
  case True
  with assms show ?thesis by (auto simp: chunk_text_def)
next
  case False
  with assms obtain chunks where
    r: "try_separators separators cfg tx = Some chunks \<or>
        (int (length tx) \<le> max_chars cfg \<and> chunks = [tx])"
    and cs: "map text' cs = chunks"
    by (auto simp: chunk_text_def recursive_split_def split_text_recursive_def map_text_enumerate
          split: option.splits if_splits)
  from r have "\<forall>c\<in>set chunks. int (length c) \<le> max_chars cfg"
    by (auto dest: try_separators_bound)
  with cs show ?thesis by (metis (no_types, lifting) imageI list.set_map)
qed

text \<open>
  C4. Every chunk should have a non-empty text. With a budget of four characters
  and no overlap, the text \<^verbatim>\<open>"ab       cd"\<close> (seven spaces) is split at the spaces;
  a running chunk of four spaces passes the test \<^verbatim>\<open>if current_chunk\<close> and is
  appended after \<^verbatim>\<open>strip()\<close>, as the empty string.
\<close>

theorem whitespace_run_gives_empty_chunk:
  "map_option (map text')
     (chunk_text \<lparr>chunk_size = 1, chunk_overlap = 0\<rparr> (str ''ab       cd'') (str ''1-10'')
        (str ''doc''))
   = Some [str ''ab'', [], str ''cd'']"
  by (simp add: chunker_defs)

section \<open>CacheManager: properties\<close>


lemmas cache_defs =
  check_cache_def check_cache_try_def store_in_cache_def store_in_cache_try_def
  get_all_insights_def get_all_insights_try_def invalidate_cache_def invalidate_cache_try_def
  query_def first_page_def partition_items_def put_item_def delete_item_def service_call_def
  item_key_def ttl_hours_def Let_def

lemma service_call_ok:
  "True \<notin> set (faults t) \<Longrightarrow>
   \<exists>t'. service_call t = (False, t') \<and> items t' = items t \<and>
        page_length t' = page_length t \<and> True \<notin> set (faults t')"
  by (cases "faults t") (auto simp: service_call_def)

lemma first_page_cong:
  "items t' = items t \<Longrightarrow> page_length t' = page_length t \<Longrightarrow>
   first_page t' doc_id fwd = first_page t doc_id fwd"
  by (simp add: first_page_def partition_items_def)



lemma query_ok:
  assumes "True \<notin> set (faults t)"
  shows "\<exists>t'. query t d P fwd lim =
            (Inr (filter P (case lim of None \<Rightarrow> first_page t d fwd
                            | Some n \<Rightarrow> take n (first_page t d fwd))), t')
          \<and> items t' = items t \<and> page_length t' = page_length t \<and> True \<notin> set (faults t')"
proof -
  from service_call_ok [OF assms] obtain t1 where
    "service_call t = (False, t1)" "items t1 = items t" "page_length t1 = page_length t"
    "True \<notin> set (faults t1)" by blast
  then show ?thesis
    by (simp add: query_def Let_def first_page_cong [of t1 t] split: option.splits)
qed



lemma delete_each_fault:
  "True \<in> set (take (length xs) (faults t)) \<Longrightarrow> \<exists>t'. delete_each t xs n = (Inl ClientError, t')"
proof (induction xs arbitrary: t n)
  case Nil
  then show ?case by simp
next
  case (Cons x xs)
  then obtain f fs where fs: "faults t = f # fs" by (cases "faults t") auto
  show ?case
  proof (cases f)
    case True
    with fs show ?thesis by (simp add: delete_item_def service_call_def)
  next
    case False
    with fs Cons.prems have "True \<in> set (take (length xs) (faults (t\<lparr>faults := fs, items := filter (\<lambda>e. item_key e \<noteq> item_key x) (items t)\<rparr>)))"
      by simp
    from Cons.IH [OF this] fs False show ?thesis
      by (simp add: delete_item_def service_call_def item_key_def)
  qed
qed

text \<open>
  C8. No operation of \<^verbatim>\<open>CacheManager\<close> raises: each is the handler around its
  \<^verbatim>\<open>try\<close> body and returns a value in every case. When the call to the table
  fails, \<^verbatim>\<open>check_cache\<close> returns \<open>None\<close>, \<^verbatim>\<open>store_in_cache\<close> returns \<open>False\<close> and
  \<^verbatim>\<open>get_all_insights\<close> returns the empty list; when the query or any of the
  deletions of \<^verbatim>\<open>invalidate_cache\<close> fails, it returns \<open>0\<close>. The deletions are
  those of the items that the query returned.
\<close>

theorem cache_manager_fallbacks:
  "(faults t = True # fs \<longrightarrow>
      fst (check_cache t now doc_id prompt) = None \<and>
      fst (store_in_cache t now doc_id prompt insights model_id chunk_count) = False \<and>
      fst (get_all_insights t now doc_id) = []) \<and>
   (True \<in> set (take (Suc (length (first_page t doc_id True))) (faults t)) \<longrightarrow>
      fst (invalidate_cache t doc_id) = 0)"
proof (intro conjI impI)
  assume f: "faults t = True # fs"
  then show "fst (check_cache t now doc_id prompt) = None"
    by (simp add: cache_defs)
  from f show "fst (store_in_cache t now doc_id prompt insights model_id chunk_count) = False"
    by (simp add: cache_defs)
  from f show "fst (get_all_insights t now doc_id) = []"
    by (simp add: cache_defs)
next
  assume a: "True \<in> set (take (Suc (length (first_page t doc_id True))) (faults t))"
  then obtain f fs where fs: "faults t = f # fs" by (cases "faults t") auto
  show "fst (invalidate_cache t doc_id) = 0"
  proof (cases f)
    case True
    with fs show ?thesis by (simp add: cache_defs)
  next
    case False
    let ?page = "first_page t doc_id True"
    have pg: "first_page (t\<lparr>faults := fs\<rparr>) doc_id True = ?page"
      by (rule first_page_cong) simp_all
    from False fs a have "True \<in> set (take (length ?page) (faults (t\<lparr>faults := fs\<rparr>)))"
      by simp
    from delete_each_fault [OF this, of 0] obtain t' where
      "delete_each (t\<lparr>faults := fs\<rparr>) ?page 0 = (Inl ClientError, t')" by blast
    with False fs pg show ?thesis
      by (simp add: invalidate_cache_def invalidate_cache_try_def query_def service_call_def)
  qed
qed

lemma store_in_cache_items:
  "store_in_cache t now doc_id prompt insights model_id chunk_count = (ok, t') \<Longrightarrow>
   items t' =
     (if ok
      then \<lparr>item_docId = doc_id, extractionTimestamp = now, item_prompt = prompt,
             item_insights = insights, modelId = model_id, chunkCount = chunk_count,
             expiresAt = now + 86400\<rparr>
           # filter (\<lambda>e. item_key e \<noteq> (doc_id, now)) (items t)
      else items t)"
  by (auto simp: cache_defs split: list.splits bool.splits if_splits)

lemma store_in_cache_keeps:
  assumes "e \<in> set (items t)" and "item_key e \<noteq> (doc_id, now)"
  shows "e \<in> set (items (snd (store_in_cache t now doc_id prompt insights model_id chunk_count)))"
proof -
  obtain ok t' where
    r: "store_in_cache t now doc_id prompt insights model_id chunk_count = (ok, t')"
    by (cases "store_in_cache t now doc_id prompt insights model_id chunk_count")
  from store_in_cache_items [OF r] assms show ?thesis
    by (simp add: r)
qed

lemma store_all_keeps:
  "e \<in> set (items t) \<Longrightarrow> \<forall>c\<in>set calls. item_key e \<noteq> (fst (snd c), fst c) \<Longrightarrow>
   e \<in> set (items (store_all t calls))"
proof (induction calls arbitrary: t)
  case Nil
  then show ?case by simp
next
  case (Cons c calls)
  obtain now doc_id prompt insights model_id chunk_count where
    c: "c = (now, doc_id, prompt, insights, model_id, chunk_count)"
    by (cases c)
  from Cons.prems have "item_key e \<noteq> (doc_id, now)" by (simp add: c)
  from store_in_cache_keeps [OF Cons.prems(1) this]
  have "e \<in> set (items (snd (store_in_cache t now doc_id prompt insights model_id chunk_count)))" .
  from Cons.IH [OF this] Cons.prems(2) show ?case by (simp add: c)
qed

text \<open>
  C6, amended: a successful \<^verbatim>\<open>store_in_cache\<close> writes one item under the key
  (document, time of the call in whole seconds) with \<^verbatim>\<open>expiresAt\<close> 24 hours later,
  and keeps every stored item that has another key; through any sequence of
  calls, a stored item stays in the table as long as no call writes its key.
\<close>

theorem store_in_cache_frame:
  "(store_in_cache t now doc_id prompt insights model_id chunk_count = (True, t') \<longrightarrow>
      items t' =
        \<lparr>item_docId = doc_id, extractionTimestamp = now, item_prompt = prompt,
          item_insights = insights, modelId = model_id, chunkCount = chunk_count,
          expiresAt = now + 24 * 3600\<rparr>
        # filter (\<lambda>e. item_key e \<noteq> (doc_id, now)) (items t)) \<and>
   (e \<in> set (items t) \<and> (\<forall>c\<in>set calls. item_key e \<noteq> (fst (snd c), fst c)) \<longrightarrow>
      e \<in> set (items (store_all t calls)))"
  using store_in_cache_items [of t now doc_id prompt insights model_id chunk_count True t']
    store_all_keeps [of e t calls]
  by simp

theorem store_in_cache_frame_witness:
  "items (snd (store_in_cache
       \<lparr>items = [\<lparr>item_docId = str ''doc'', extractionTimestamp = 100, item_prompt = str ''p'',
                   item_insights = (), modelId = str ''m'', chunkCount = 3, expiresAt = 86500\<rparr>],
         faults = [], page_length = length\<rparr>
       101 (str ''doc'') (str ''q'') () (str ''m'') 4)) =
     [\<lparr>item_docId = str ''doc'', extractionTimestamp = 101, item_prompt = str ''q'',
        item_insights = (), modelId = str ''m'', chunkCount = 4, expiresAt = 86501\<rparr>,
      \<lparr>item_docId = str ''doc'', extractionTimestamp = 100, item_prompt = str ''p'',
        item_insights = (), modelId = str ''m'', chunkCount = 3, expiresAt = 86500\<rparr>] \<and>
   \<lparr>item_docId = str ''doc'', extractionTimestamp = 100, item_prompt = str ''p'',
     item_insights = (), modelId = str ''m'', chunkCount = 3, expiresAt = 86500\<rparr>
   \<in> set (items (store_all
       \<lparr>items = [\<lparr>item_docId = str ''doc'', extractionTimestamp = 100, item_prompt = str ''p'',
                   item_insights = (), modelId = str ''m'', chunkCount = 3, expiresAt = 86500\<rparr>],
         faults = [], page_length = length\<rparr>
       [(101, str ''doc'', str ''q'', (), str ''m'', 4),
        (102, str ''doc'', str ''p'', (), str ''m'', 5)]))"
  using store_in_cache_frame
    [of "\<lparr>items = [\<lparr>item_docId = str ''doc'', extractionTimestamp = 100,
                     item_prompt = str ''p'', item_insights = (), modelId = str ''m'',
                     chunkCount = 3, expiresAt = 86500\<rparr>], faults = [], page_length = length\<rparr>"
        101 "str ''doc''" "str ''q''" "()" "str ''m''" 4
        "snd (store_in_cache \<lparr>items = [\<lparr>item_docId = str ''doc'', extractionTimestamp = 100,
                     item_prompt = str ''p'', item_insights = (), modelId = str ''m'',
                     chunkCount = 3, expiresAt = 86500\<rparr>], faults = [], page_length = length\<rparr>
           101 (str ''doc'') (str ''q'') () (str ''m'') 4)"
        "\<lparr>item_docId = str ''doc'', extractionTimestamp = 100, item_prompt = str ''p'',
          item_insights = (), modelId = str ''m'', chunkCount = 3, expiresAt = 86500\<rparr>"
        "[(101, str ''doc'', str ''q'', (), str ''m'', 4),
          (102, str ''doc'', str ''p'', (), str ''m'', 5)]"]
  by (simp add: cache_defs str_def)

text \<open>
  C6, as stated: no call overwrites a prior entry. Two calls for one document
  within the same second have the same key, and the second replaces the item of
  the first.
\<close>

theorem store_in_cache_overwrites:
  "\<not> set (items (store_all \<lparr>items = [], faults = [], page_length = length\<rparr>
              [(100, str ''doc'', str ''p'', (), str ''m'', 3)]))
      \<subseteq> set (items (store_all \<lparr>items = [], faults = [], page_length = length\<rparr>
              [(100, str ''doc'', str ''p'', (), str ''m'', 3),
               (100, str ''doc'', str ''q'', (), str ''m'', 4)]))"
  by (simp add: cache_defs str_def)



theorem cache_manager_fallbacks_witness:
  "fst (check_cache \<lparr>items = [\<lparr>item_docId = str ''doc'', extractionTimestamp = 100,
          item_prompt = str ''p'', item_insights = (), modelId = str ''m'', chunkCount = 3,
          expiresAt = 86500\<rparr>], faults = [True], page_length = length\<rparr> 200 (str ''doc'') (str ''p'')) = None \<and>
   fst (store_in_cache \<lparr>items = [\<lparr>item_docId = str ''doc'', extractionTimestamp = 100,
          item_prompt = str ''p'', item_insights = (), modelId = str ''m'', chunkCount = 3,
          expiresAt = 86500\<rparr>], faults = [True], page_length = length\<rparr> 200 (str ''doc'') (str ''p'') () (str ''m'') 3)
     = False \<and>
   fst (get_all_insights \<lparr>items = [\<lparr>item_docId = str ''doc'', extractionTimestamp = 100,
          item_prompt = str ''p'', item_insights = (), modelId = str ''m'', chunkCount = 3,
          expiresAt = 86500\<rparr>], faults = [True], page_length = length\<rparr> 200 (str ''doc'')) = [] \<and>
   fst (invalidate_cache \<lparr>items = [\<lparr>item_docId = str ''doc'', extractionTimestamp = 100,
          item_prompt = str ''p'', item_insights = (), modelId = str ''m'', chunkCount = 3,
          expiresAt = 86500\<rparr>], faults = [True], page_length = length\<rparr> (str ''doc'')) = 0"
  using cache_manager_fallbacks
    [of "\<lparr>items = [\<lparr>item_docId = str ''doc'', extractionTimestamp = 100,
          item_prompt = str ''p'', item_insights = (), modelId = str ''m'', chunkCount = 3,
          expiresAt = 86500\<rparr>], faults = [True], page_length = length\<rparr>" "[]" 200 "str ''doc''" "str ''p''" "()"
        "str ''m''" 3]
  by simp

text \<open>
  What \<^verbatim>\<open>check_cache\<close> returns when the table answers and a page holds at least
  one item: the newest item of the document if that item has the prompt and is
  not expired, and nothing otherwise.
\<close>

lemma check_cache_newest:
  assumes "True \<notin> set (faults t)" and "0 < page_length t (partition_items t doc_id False)"
  shows "fst (check_cache t now doc_id prompt) =
     (case partition_items t doc_id False of
        [] \<Rightarrow> None
      | e # _ \<Rightarrow> if item_prompt e = prompt \<and> expiresAt e > now then Some e else None)"
proof -
  from assms(2) have "take (Suc 0) (first_page t doc_id False)
      = take (Suc 0) (partition_items t doc_id False)"
    by (cases "page_length t (partition_items t doc_id False)") (simp_all add: first_page_def)
  with query_ok [OF assms(1), of doc_id "\<lambda>e. item_prompt e = prompt \<and> expiresAt e > now"
      False "Some 1"]
  show ?thesis
    by (auto simp: check_cache_def check_cache_try_def split: list.splits)
qed

text \<open>
  C3. \<^verbatim>\<open>check_cache\<close> should return the newest among all unexpired items of the
  document with the given prompt. With \<^verbatim>\<open>Limit=1\<close> the query reads only the
  newest item of the document before it filters: here that item has another
  prompt, so the lookup misses although an older unexpired item with the prompt
  is stored.
\<close>

theorem check_cache_misses_older_match:
  "fst (check_cache
     \<lparr>items = [\<lparr>item_docId = str ''doc'', extractionTimestamp = 1, item_prompt = str ''p'',
                 item_insights = (), modelId = str ''m'', chunkCount = 3, expiresAt = 86401\<rparr>,
               \<lparr>item_docId = str ''doc'', extractionTimestamp = 2, item_prompt = str ''q'',
                 item_insights = (), modelId = str ''m'', chunkCount = 3, expiresAt = 86402\<rparr>],
       faults = [], page_length = length\<rparr> 5 (str ''doc'') (str ''p'')) = None \<and>
   filter (\<lambda>e. item_docId e = str ''doc'' \<and> item_prompt e = str ''p'' \<and> expiresAt e > 5)
     [\<lparr>item_docId = str ''doc'', extractionTimestamp = 1, item_prompt = str ''p'',
        item_insights = (), modelId = str ''m'', chunkCount = 3, expiresAt = 86401\<rparr>,
      \<lparr>item_docId = str ''doc'', extractionTimestamp = 2, item_prompt = str ''q'',
        item_insights = (), modelId = str ''m'', chunkCount = 3, expiresAt = 86402\<rparr>] =
     [\<lparr>item_docId = str ''doc'', extractionTimestamp = 1, item_prompt = str ''p'',
        item_insights = (), modelId = str ''m'', chunkCount = 3, expiresAt = 86401\<rparr>]"
  by (simp add: cache_defs str_def)

end
